theory Spec2Isabelle
  imports Main
begin

section \<open>Players, stages and the errors they return\<close>

text \<open>
  The package orchestra groups workers (players) in a stage and drives their life cycle
  Setup, Play, Clean. The Go interface

  \<^verbatim>\<open>type Player interface { Play(context.Context) error; Setup() error; Clean() }\<close>

  is a value with three methods of unknown body. A method body may read and write anything
  the program can reach, so the embedding gives every method the whole of that state, the
  world \<open>'w\<close>, and gets the new world back. A Go \<open>error\<close> is \<open>'e option\<close>, with \<open>None\<close> for
  \<open>nil\<close>; a \<open>context.Context\<close> is a value of type \<open>'c\<close>.
\<close>

type_synonym name = string

record ('w, 'e, 'c) Player =
  Player_Setup :: "'w \<Rightarrow> 'e option \<times> 'w"
  Player_Play :: "'c \<Rightarrow> 'w \<Rightarrow> 'e option \<times> 'w"
  Player_Clean :: "'w \<Rightarrow> 'w"

text \<open>\<open>ErrSetup\<close> and \<open>ErrPlay\<close>, the two error structs of stage.go.\<close>

datatype 'e ErrSetup = ErrSetup (Player: name) (Err: 'e)

datatype 'e ErrPlay = ErrPlay (Players: "name \<rightharpoonup> 'e")

text \<open>The struct \<open>Stage\<close>: the registry of players and the flag \<open>beenSetup\<close>.\<close>

record ('w, 'e, 'c) Stage =
  players :: "name \<rightharpoonup> ('w, 'e, 'c) Player"
  beenSetup :: bool

text \<open>
  The code keeps no log of the calls it makes on players; the embedding keeps one beside
  the world, so that "is called exactly once" can be stated. A call is logged when it
  returns, under the name the player is registered with in the stage, with the context it
  got and the error it returned.
\<close>

datatype ('e, 'c) call =
    SetupCall name "'e option"
  | PlayCall name 'c "'e option"
  | CleanCall name

record ('w, 'e, 'c) env =
  world :: 'w
  calls :: "('e, 'c) call list"

definition call_Setup ::
  "name \<Rightarrow> ('w, 'e, 'c) Player \<Rightarrow> ('w, 'e, 'c) env \<Rightarrow> 'e option \<times> ('w, 'e, 'c) env" where
  "call_Setup n it \<sigma> =
     (case Player_Setup it (world \<sigma>) of
        (err, w') \<Rightarrow> (err, \<lparr>world = w', calls = calls \<sigma> @ [SetupCall n err]\<rparr>))"

definition call_Play ::
  "name \<Rightarrow> ('w, 'e, 'c) Player \<Rightarrow> 'c \<Rightarrow> ('w, 'e, 'c) env \<Rightarrow> 'e option \<times> ('w, 'e, 'c) env" where
  "call_Play n it ctx \<sigma> =
     (case Player_Play it ctx (world \<sigma>) of
        (err, w') \<Rightarrow> (err, \<lparr>world = w', calls = calls \<sigma> @ [PlayCall n ctx err]\<rparr>))"

definition call_Clean ::
  "name \<Rightarrow> ('w, 'e, 'c) Player \<Rightarrow> ('w, 'e, 'c) env \<Rightarrow> ('w, 'e, 'c) env" where
  "call_Clean n it \<sigma> =
     \<lparr>world = Player_Clean it (world \<sigma>), calls = calls \<sigma> @ [CleanCall n]\<rparr>"

text \<open>The calls a run has added to the log it started with.\<close>

definition new_calls :: "('w, 'e, 'c) env \<Rightarrow> ('w, 'e, 'c) env \<Rightarrow> ('e, 'c) call list" where
  "new_calls \<sigma> \<sigma>' = drop (length (calls \<sigma>)) (calls \<sigma>')"

text \<open>
  \<open>for name, it := range s.players\<close> visits every entry of the map once, in an order Go
  leaves open and may change from one loop to the next. A loop over the map therefore
  takes the entries in the order it meets them, and \<open>ranges m its\<close> says that \<open>its\<close> is
  such an order for the map \<open>m\<close>.
\<close>

definition ranges :: "(name \<rightharpoonup> 'a) \<Rightarrow> (name \<times> 'a) list \<Rightarrow> bool" where
  "ranges m its \<longleftrightarrow> distinct (map fst its) \<and> map_of its = m"

subsection \<open>NewStage and Add\<close>

definition NewStage :: "('w, 'e, 'c) Stage" where
  "NewStage = \<lparr>players = Map.empty, beenSetup = False\<rparr>"

definition Add ::
  "('w, 'e, 'c) Stage \<Rightarrow> name \<Rightarrow> ('w, 'e, 'c) Player \<Rightarrow> ('w, 'e, 'c) Stage" where
  "Add s n p = s\<lparr>players := (players s)(n \<mapsto> p)\<rparr>"

subsection \<open>SimplePlayer\<close>

text \<open>
  \<^verbatim>\<open>type SimplePlayer func(context.Context) error\<close> with its three methods, and the
  conversion of a \<open>SimplePlayer\<close> to the interface \<open>Player\<close>.
\<close>

type_synonym ('w, 'e, 'c) SimplePlayer = "'c \<Rightarrow> 'w \<Rightarrow> 'e option \<times> 'w"

definition SimplePlayer_Setup :: "('w, 'e, 'c) SimplePlayer \<Rightarrow> 'w \<Rightarrow> 'e option \<times> 'w" where
  "SimplePlayer_Setup sp w = (None, w)"

definition SimplePlayer_Clean :: "('w, 'e, 'c) SimplePlayer \<Rightarrow> 'w \<Rightarrow> 'w" where
  "SimplePlayer_Clean sp w = w"

definition SimplePlayer_Play :: "('w, 'e, 'c) SimplePlayer \<Rightarrow> 'c \<Rightarrow> 'w \<Rightarrow> 'e option \<times> 'w" where
  "SimplePlayer_Play sp ctx w = sp ctx w"

definition SimplePlayer :: "('w, 'e, 'c) SimplePlayer \<Rightarrow> ('w, 'e, 'c) Player" where
  "SimplePlayer sp =
     \<lparr>Player_Setup = SimplePlayer_Setup sp,
      Player_Play = SimplePlayer_Play sp,
      Player_Clean = SimplePlayer_Clean sp\<rparr>"

subsection \<open>Stage.Setup\<close>

text \<open>
  The first loop of \<open>Setup\<close>: it calls \<open>Setup\<close> on the players in the order of the range,
  appends the ones that return \<open>nil\<close> to \<open>good\<close>, and breaks at the first error with the
  name in \<open>faulty\<close>. The result is the triple \<open>(err, faulty, good)\<close> the loop leaves in its
  variables; \<open>faulty\<close> starts as the empty string. \<open>good\<close> holds each player with its name,
  which only the log of calls reads.
\<close>

fun Setup_loop ::
  "(name \<times> ('w, 'e, 'c) Player) list \<Rightarrow> (name \<times> ('w, 'e, 'c) Player) list \<Rightarrow> ('w, 'e, 'c) env \<Rightarrow>
     ('e option \<times> name \<times> (name \<times> ('w, 'e, 'c) Player) list) \<times> ('w, 'e, 'c) env" where
  "Setup_loop [] good \<sigma> = ((None, [], good), \<sigma>)"
| "Setup_loop ((n, it) # rest) good \<sigma> =
     (case call_Setup n it \<sigma> of
        (Some e, \<sigma>') \<Rightarrow> ((Some e, n, good), \<sigma>')
      | (None, \<sigma>') \<Rightarrow> Setup_loop rest (good @ [(n, it)]) \<sigma>')"

text \<open>The second loop: \<open>for _, it := range good { it.Clean() }\<close>, over a slice, in order.\<close>

fun Clean_good :: "(name \<times> ('w, 'e, 'c) Player) list \<Rightarrow> ('w, 'e, 'c) env \<Rightarrow> ('w, 'e, 'c) env" where
  "Clean_good [] \<sigma> = \<sigma>"
| "Clean_good ((n, it) # rest) \<sigma> = Clean_good rest (call_Clean n it \<sigma>)"

text \<open>
  \<open>Setup\<close> returns the error (\<open>None\<close> for \<open>nil\<close>), the stage as the call leaves it, and the
  world and log.
\<close>

definition Setup ::
  "('w, 'e, 'c) Stage \<Rightarrow> (name \<times> ('w, 'e, 'c) Player) list \<Rightarrow> ('w, 'e, 'c) env \<Rightarrow>
     'e ErrSetup option \<times> ('w, 'e, 'c) Stage \<times> ('w, 'e, 'c) env" where
  "Setup s its \<sigma> =
     (case Setup_loop its [] \<sigma> of
        ((Some e, faulty, good), \<sigma>') \<Rightarrow> (Some (ErrSetup faulty e), s, Clean_good good \<sigma>')
      | ((None, faulty, good), \<sigma>') \<Rightarrow> (None, s\<lparr>beenSetup := True\<rparr>, \<sigma>'))"

section \<open>Goroutines\<close>

text \<open>
  \<open>Play\<close> and \<open>Clean\<close> start one goroutine for every player and wait for them with a
  \<open>sync.WaitGroup\<close>. A call of one of them is a small machine: the calling goroutine
  \<open>Main\<close> and the goroutine \<open>Go n\<close> started for the player registered as \<open>n\<close> each stand
  at a place of their function body, and a step moves one of them to its next place. A
  schedule is the list of the goroutines that step, in order; \<open>run\<close> takes the steps of a
  schedule and is \<open>None\<close> when the schedule asks for a step that cannot be taken: of a
  goroutine that is blocked, has returned, or was never started.

  A call of a player's method is one step on the world. A player that has not returned
  yet is a goroutine that the schedule has not let step yet, so what is proved of every
  schedule holds however long the players take.
\<close>

datatype tid = Main | Go name

text \<open>How a call ends: it returns a value, or it panics.\<close>

datatype 'r outcome = Returned 'r | Panicked

fun run :: "(tid \<Rightarrow> 'a \<Rightarrow> 'a option) \<Rightarrow> tid list \<Rightarrow> 'a \<Rightarrow> 'a option" where
  "run stp [] c = Some c"
| "run stp (t # ts) c = (case stp t c of None \<Rightarrow> None | Some c' \<Rightarrow> run stp ts c')"

subsection \<open>Stage.Play\<close>

text \<open>
  The places of the goroutine \<open>go func(n string, player Player) { ... }(name, it)\<close> of
  \<open>Play\<close>: before \<open>e := player.Play(ctx)\<close>; before \<open>if e != nil { echan <- ... }\<close>, holding
  \<open>e\<close>; before the deferred \<open>wg.Done()\<close>; and returned.
\<close>

datatype 'e play_go = G_call | G_send "'e option" | G_defer | G_exit

text \<open>
  The places of \<open>Play\<close> itself: at its entry; in the loop that starts the goroutines, with
  the entries of the map still to visit; at \<open>wg.Wait()\<close>; at \<open>close(echan)\<close>; in the loop
  \<open>for e := range echan\<close>, with the value of \<open>err\<close>; returned, with the error returned; and
  panicked.
\<close>

datatype ('w, 'e, 'c) play_pc =
    P_entry
  | P_range "(name \<times> ('w, 'e, 'c) Player) list"
  | P_wait
  | P_close
  | P_drain "'e ErrPlay option"
  | P_return "'e ErrPlay option"
  | P_panic

text \<open>
  The state of a call of \<open>Play\<close>: the place of \<open>Play\<close>; for every goroutine started, the
  player it was given and its place; the counter of \<open>wg\<close>; the buffer, the capacity and the
  closed flag of \<open>echan\<close>; whether a goroutine has panicked (\<open>wg.Done()\<close> on a counter of
  zero, a send on a closed channel), which ends the program; the world and the log.
\<close>

record ('w, 'e, 'c) play_cfg =
  ppc :: "('w, 'e, 'c) play_pc"
  pgos :: "name \<rightharpoonup> ('w, 'e, 'c) Player \<times> 'e play_go"
  pwg :: nat
  echan :: "(name \<times> 'e) list"
  ecap :: nat
  eclosed :: bool
  pfault :: bool
  penv :: "('w, 'e, 'c) env"

definition Play_init :: "('w, 'e, 'c) env \<Rightarrow> ('w, 'e, 'c) play_cfg" where
  "Play_init \<sigma> =
     \<lparr>ppc = P_entry, pgos = Map.empty, pwg = 0, echan = [], ecap = 0, eclosed = False,
      pfault = False, penv = \<sigma>\<rparr>"

text \<open>
  A step of \<open>Play\<close> itself. \<open>wg.Wait()\<close> blocks while the counter is not zero; the range
  over \<open>echan\<close> blocks on an empty channel that is not closed and ends on an empty channel
  that is closed. The last two lines of \<open>Play\<close> return \<open>nil\<close> when \<open>err\<close> is \<open>nil\<close> and \<open>err\<close>
  otherwise: the value of \<open>err\<close> in both cases.
\<close>

fun Play_main ::
  "('w, 'e, 'c) Stage \<Rightarrow> (name \<times> ('w, 'e, 'c) Player) list \<Rightarrow> ('w, 'e, 'c) play_pc \<Rightarrow>
     ('w, 'e, 'c) play_cfg \<Rightarrow> ('w, 'e, 'c) play_cfg option" where
  "Play_main s its P_entry c =
     (if \<not> beenSetup s then Some (c\<lparr>ppc := P_panic\<rparr>)
      else Some (c\<lparr>pwg := pwg c + card (dom (players s)),
                   ecap := card (dom (players s)),
                   ppc := P_range its\<rparr>))"
| "Play_main s its (P_range ((n, it) # rest)) c =
     Some (c\<lparr>pgos := (pgos c)(n \<mapsto> (it, G_call)), ppc := P_range rest\<rparr>)"
| "Play_main s its (P_range []) c = Some (c\<lparr>ppc := P_wait\<rparr>)"
| "Play_main s its P_wait c = (if pwg c = 0 then Some (c\<lparr>ppc := P_close\<rparr>) else None)"
| "Play_main s its P_close c = Some (c\<lparr>eclosed := True, ppc := P_drain None\<rparr>)"
| "Play_main s its (P_drain err) c =
     (case echan c of
        [] \<Rightarrow> if eclosed c then Some (c\<lparr>ppc := P_return err\<rparr>) else None
      | (n, e) # rest \<Rightarrow>
          Some (c\<lparr>echan := rest,
                  ppc := P_drain (Some (ErrPlay
                    ((case err of None \<Rightarrow> Map.empty | Some ep \<Rightarrow> Players ep)(n \<mapsto> e))))\<rparr>))"
| "Play_main s its (P_return r) c = None"
| "Play_main s its P_panic c = None"

text \<open>
  A step of the goroutine of the player \<open>it\<close> registered as \<open>n\<close>. A send blocks while the
  buffer is full and panics on a closed channel; \<open>wg.Done()\<close> panics on a counter of zero.
\<close>

fun Play_go ::
  "'c \<Rightarrow> name \<Rightarrow> ('w, 'e, 'c) Player \<Rightarrow> 'e play_go \<Rightarrow>
     ('w, 'e, 'c) play_cfg \<Rightarrow> ('w, 'e, 'c) play_cfg option" where
  "Play_go ctx n it G_call c =
     (case call_Play n it ctx (penv c) of
        (e, \<sigma>') \<Rightarrow> Some (c\<lparr>penv := \<sigma>', pgos := (pgos c)(n \<mapsto> (it, G_send e))\<rparr>))"
| "Play_go ctx n it (G_send None) c = Some (c\<lparr>pgos := (pgos c)(n \<mapsto> (it, G_defer))\<rparr>)"
| "Play_go ctx n it (G_send (Some e)) c =
     (if eclosed c then Some (c\<lparr>pfault := True\<rparr>)
      else if length (echan c) < ecap c
      then Some (c\<lparr>echan := echan c @ [(n, e)], pgos := (pgos c)(n \<mapsto> (it, G_defer))\<rparr>)
      else None)"
| "Play_go ctx n it G_defer c =
     (if pwg c = 0 then Some (c\<lparr>pfault := True\<rparr>)
      else Some (c\<lparr>pwg := pwg c - 1, pgos := (pgos c)(n \<mapsto> (it, G_exit))\<rparr>))"
| "Play_go ctx n it G_exit c = None"

definition Play_step ::
  "('w, 'e, 'c) Stage \<Rightarrow> 'c \<Rightarrow> (name \<times> ('w, 'e, 'c) Player) list \<Rightarrow> tid \<Rightarrow>
     ('w, 'e, 'c) play_cfg \<Rightarrow> ('w, 'e, 'c) play_cfg option" where
  "Play_step s ctx its t c =
     (if pfault c then None
      else case t of
        Main \<Rightarrow> Play_main s its (ppc c) c
      | Go n \<Rightarrow> (case pgos c n of None \<Rightarrow> None | Some (it, g) \<Rightarrow> Play_go ctx n it g c))"

text \<open>
  What a call of \<open>Play\<close> gives under a schedule: the error returned or a panic, with the
  world and log, when the schedule takes the call to its end, and \<open>None\<close> otherwise.
\<close>

definition Play ::
  "('w, 'e, 'c) Stage \<Rightarrow> 'c \<Rightarrow> (name \<times> ('w, 'e, 'c) Player) list \<Rightarrow> tid list \<Rightarrow>
     ('w, 'e, 'c) env \<Rightarrow> ('e ErrPlay option outcome \<times> ('w, 'e, 'c) env) option" where
  "Play s ctx its sched \<sigma> =
     (case run (Play_step s ctx its) sched (Play_init \<sigma>) of
        None \<Rightarrow> None
      | Some c \<Rightarrow>
          if pfault c then Some (Panicked, penv c)
          else (case ppc c of
                  P_return r \<Rightarrow> Some (Returned r, penv c)
                | P_panic \<Rightarrow> Some (Panicked, penv c)
                | _ \<Rightarrow> None))"

subsection \<open>Stage.Clean\<close>









section \<open>What the proofs speak about\<close>

subsection \<open>The calls of a sequence of setups\<close>

text \<open>
  Whether a player's \<open>Setup\<close> returns an error depends on the world it is called in.
  \<open>setups_succeed its w\<close> says that every player of \<open>its\<close> returns \<open>nil\<close> from \<open>Setup\<close> when
  they are called one after the other from the world \<open>w\<close>; \<open>setups_world its w\<close> is the
  world these calls leave, and \<open>cleans_world its w\<close> the world that the calls of \<open>Clean\<close> on
  the players of \<open>its\<close> leave.
\<close>

fun setups_succeed :: "(name \<times> ('w, 'e, 'c) Player) list \<Rightarrow> 'w \<Rightarrow> bool" where
  "setups_succeed [] w = True"
| "setups_succeed ((n, it) # rest) w =
     (fst (Player_Setup it w) = None \<and> setups_succeed rest (snd (Player_Setup it w)))"

fun setups_world :: "(name \<times> ('w, 'e, 'c) Player) list \<Rightarrow> 'w \<Rightarrow> 'w" where
  "setups_world [] w = w"
| "setups_world ((n, it) # rest) w = setups_world rest (snd (Player_Setup it w))"


text \<open>
  The log of the calls of \<open>Setup\<close> that return \<open>nil\<close> on the players of \<open>its\<close>, in order, and
  of the calls of \<open>Clean\<close> on them.
\<close>

definition setup_calls :: "(name \<times> 'p) list \<Rightarrow> ('e, 'c) call list" where
  "setup_calls its = map (\<lambda>(n, it). SetupCall n None) its"

definition clean_calls :: "(name \<times> 'p) list \<Rightarrow> ('e, 'c) call list" where
  "clean_calls its = map (\<lambda>(n, it). CleanCall n) its"

subsection \<open>Counting goroutines\<close>

text \<open>
  \<open>left_sum wt its gos\<close> adds a weight over the goroutines of the entries of \<open>its\<close>, started
  or not. With weight one for every goroutine that has not run its \<open>wg.Done()\<close> it is the
  number \<open>pending\<close> that the counter of the WaitGroup has to hold.
\<close>

definition left_sum ::
  "(('p \<times> 'g) option \<Rightarrow> nat) \<Rightarrow> (name \<times> 'q) list \<Rightarrow> (name \<rightharpoonup> 'p \<times> 'g) \<Rightarrow> nat" where
  "left_sum wt its gos = sum_list (map (\<lambda>n. wt (gos n)) (map fst its))"

definition gone :: "'g \<Rightarrow> ('p \<times> 'g) option \<Rightarrow> bool" where
  "gone fin x = (case x of None \<Rightarrow> False | Some (it, g) \<Rightarrow> g = fin)"

definition waits :: "'g \<Rightarrow> ('p \<times> 'g) option \<Rightarrow> nat" where
  "waits fin x = (if gone fin x then 0 else 1)"

definition pending :: "'g \<Rightarrow> (name \<times> 'q) list \<Rightarrow> (name \<rightharpoonup> 'p \<times> 'g) \<Rightarrow> nat" where
  "pending fin its gos = left_sum (waits fin) its gos"

subsection \<open>Invariants of Clean\<close>







subsection \<open>Invariants of Play\<close>

text \<open>
  In every state that a call of \<open>Play\<close> reaches: no goroutine has panicked; every
  goroutine runs for an entry of the stage; the goroutines started are those of the
  entries the loop has visited; while goroutines may run, the counter of \<open>wg\<close> is the number
  of goroutines that have not run \<open>wg.Done()\<close>, the channel is open and has room for one
  value of every player; and from \<open>close(echan)\<close> on every goroutine has returned.
\<close>

definition play_inv ::
  "(name \<times> ('w, 'e, 'c) Player) list \<Rightarrow> ('w, 'e, 'c) play_cfg \<Rightarrow> bool" where
  "play_inv its c \<longleftrightarrow>
     \<not> pfault c \<and>
     (\<forall>n it g. pgos c n = Some (it, g) \<longrightarrow> (n, it) \<in> set its) \<and>
     (case ppc c of
        P_entry \<Rightarrow> pgos c = Map.empty \<and> pwg c = 0 \<and> echan c = [] \<and> \<not> eclosed c
      | P_range rest \<Rightarrow>
          (\<exists>pre. its = pre @ rest \<and> dom (pgos c) = fst ` set pre) \<and>
          pwg c = pending G_exit its (pgos c) \<and> \<not> eclosed c \<and> ecap c = length its
      | P_wait \<Rightarrow>
          dom (pgos c) = fst ` set its \<and>
          pwg c = pending G_exit its (pgos c) \<and> \<not> eclosed c \<and> ecap c = length its
      | P_close \<Rightarrow> (\<forall>n \<in> fst ` set its. gone G_exit (pgos c n)) \<and> \<not> eclosed c
      | P_drain err \<Rightarrow> (\<forall>n \<in> fst ` set its. gone G_exit (pgos c n)) \<and> eclosed c
      | P_return r \<Rightarrow>
          (\<forall>n \<in> fst ` set its. gone G_exit (pgos c n)) \<and> eclosed c \<and> echan c = []
      | P_panic \<Rightarrow> pgos c = Map.empty)"

text \<open>
  A goroutine is past its send when it stands before \<open>wg.Done()\<close> or has returned. The
  buffer of the channel holds at most one value for a name, and only of goroutines past
  their send.
\<close>

definition sent :: "('p \<times> 'e play_go) option \<Rightarrow> bool" where
  "sent x = (case x of Some (it, G_defer) \<Rightarrow> True | Some (it, G_exit) \<Rightarrow> True | _ \<Rightarrow> False)"

definition play_chan :: "('w, 'e, 'c) play_cfg \<Rightarrow> bool" where
  "play_chan c \<longleftrightarrow>
     distinct (map fst (echan c)) \<and> (\<forall>m v. (m, v) \<in> set (echan c) \<longrightarrow> sent (pgos c m))"

definition play_ok ::
  "(name \<times> ('w, 'e, 'c) Player) list \<Rightarrow> ('w, 'e, 'c) play_cfg \<Rightarrow> bool" where
  "play_ok its c \<longleftrightarrow> play_inv its c \<and> play_chan c"

text \<open>
  The calls of \<open>Play\<close> in a log: \<open>plays ctx L\<close> says that \<open>L\<close> holds calls of \<open>Play\<close> with the
  context \<open>ctx\<close> only, at most one for a name. The log of a call of \<open>Stage.Play\<close> holds such
  calls, one for every goroutine that is past its call, and the error a goroutine holds
  before its send is the one its call returned. \<open>failed ctx L\<close> are the names whose call
  returned an error.
\<close>

fun call_name :: "('e, 'c) call \<Rightarrow> name" where
  "call_name (SetupCall n e) = n"
| "call_name (PlayCall n ctx e) = n"
| "call_name (CleanCall n) = n"

definition played :: "('p \<times> 'e play_go) option \<Rightarrow> bool" where
  "played x = (case x of None \<Rightarrow> False | Some (it, G_call) \<Rightarrow> False | Some (it, g) \<Rightarrow> True)"

definition plays :: "'c \<Rightarrow> ('e, 'c) call list \<Rightarrow> bool" where
  "plays ctx L \<longleftrightarrow> distinct (map call_name L) \<and> (\<forall>x \<in> set L. \<exists>n e. x = PlayCall n ctx e)"

definition failed :: "'c \<Rightarrow> ('e, 'c) call list \<Rightarrow> name set" where
  "failed ctx L = {n. \<exists>v. PlayCall n ctx (Some v) \<in> set L}"

definition play_log :: "'c \<Rightarrow> ('w, 'e, 'c) env \<Rightarrow> ('w, 'e, 'c) play_cfg \<Rightarrow> bool" where
  "play_log ctx \<sigma> c \<longleftrightarrow>
     (\<exists>L. calls (penv c) = calls \<sigma> @ L \<and> plays ctx L \<and>
          (\<forall>n. (\<exists>e. PlayCall n ctx e \<in> set L) \<longleftrightarrow> played (pgos c n)) \<and>
          (\<forall>n it e. pgos c n = Some (it, G_send e) \<longrightarrow> PlayCall n ctx e \<in> set L))"

text \<open>
  The errors delivered: those that \<open>Play\<close> has taken from the channel into its map
  together with those in the buffer. They are the errors returned by the calls of the
  goroutines past their send; and a map that \<open>Play\<close> has made is not empty.
\<close>

fun err_map :: "'e ErrPlay option \<Rightarrow> name \<rightharpoonup> 'e" where
  "err_map None = Map.empty"
| "err_map (Some ep) = Players ep"

fun drained :: "('w, 'e, 'c) play_pc \<Rightarrow> 'e ErrPlay option" where
  "drained (P_drain err) = err"
| "drained (P_return r) = r"
| "drained pc = None"

definition delivered :: "('w, 'e, 'c) play_cfg \<Rightarrow> name \<rightharpoonup> 'e" where
  "delivered c = err_map (drained (ppc c)) ++ map_of (echan c)"

definition play_deliv :: "'c \<Rightarrow> ('w, 'e, 'c) env \<Rightarrow> ('w, 'e, 'c) play_cfg \<Rightarrow> bool" where
  "play_deliv ctx \<sigma> c \<longleftrightarrow>
     (\<forall>n v. delivered c n = Some v \<longleftrightarrow>
        sent (pgos c n) \<and> PlayCall n ctx (Some v) \<in> set (new_calls \<sigma> (penv c))) \<and>
     (\<forall>ep. ppc c = P_drain (Some ep) \<or> ppc c = P_return (Some ep) \<longrightarrow> Players ep \<noteq> Map.empty)"

definition play_all ::
  "'c \<Rightarrow> (name \<times> ('w, 'e, 'c) Player) list \<Rightarrow> ('w, 'e, 'c) env \<Rightarrow> ('w, 'e, 'c) play_cfg \<Rightarrow> bool" where
  "play_all ctx its \<sigma> c \<longleftrightarrow>
     play_inv its c \<and> play_chan c \<and> play_log ctx \<sigma> c \<and> play_deliv ctx \<sigma> c"

text \<open>
  \<open>Play\<close> panics only on a stage whose flag is not set, and then at once: it does nothing
  but panic.
\<close>

definition play_gate ::
  "('w, 'e, 'c) Stage \<Rightarrow> ('w, 'e, 'c) env \<Rightarrow> ('w, 'e, 'c) play_cfg \<Rightarrow> bool" where
  "play_gate s \<sigma> c \<longleftrightarrow>
     (beenSetup s \<longrightarrow> ppc c \<noteq> P_panic) \<and>
     (\<not> beenSetup s \<longrightarrow> c = Play_init \<sigma> \<or> c = (Play_init \<sigma>)\<lparr>ppc := P_panic\<rparr>)"

text \<open>
  The number of steps a call of \<open>Play\<close> still has to take: every step lowers it. A call
  has ended when \<open>Play\<close> has returned or panicked.
\<close>

definition play_go_left :: "('p \<times> 'e play_go) option \<Rightarrow> nat" where
  "play_go_left x =
     (case x of
        Some (it, G_exit) \<Rightarrow> 0
      | Some (it, G_defer) \<Rightarrow> 1
      | Some (it, G_send e) \<Rightarrow> 3
      | _ \<Rightarrow> 4)"

fun play_main_left :: "nat \<Rightarrow> ('w, 'e, 'c) play_pc \<Rightarrow> nat" where
  "play_main_left k P_entry = k + 5"
| "play_main_left k (P_range rest) = length rest + 4"
| "play_main_left k P_wait = 3"
| "play_main_left k P_close = 2"
| "play_main_left k (P_drain err) = 1"
| "play_main_left k (P_return r) = 0"
| "play_main_left k P_panic = 0"

definition play_left :: "(name \<times> ('w, 'e, 'c) Player) list \<Rightarrow> ('w, 'e, 'c) play_cfg \<Rightarrow> nat" where
  "play_left its c =
     play_main_left (length its) (ppc c) + left_sum play_go_left its (pgos c) + length (echan c)"

fun play_ended :: "('w, 'e, 'c) play_pc \<Rightarrow> bool" where
  "play_ended (P_return r) = True"
| "play_ended P_panic = True"
| "play_ended pc = False"

subsection \<open>Players and stages of the examples\<close>

text \<open>
  The world of the examples is a number and errors are strings. \<open>steady\<close> never fails;
  \<open>failing x\<close> fails in \<open>Play\<close> with \<open>x\<close>; \<open>broken y\<close> fails in \<open>Setup\<close> with \<open>y\<close>; \<open>once\<close> can
  be set up in the world \<open>0\<close> only, which its \<open>Setup\<close> leaves, as a player does that takes a
  resource it never gives back.
\<close>

definition steady :: "(nat, string, nat) Player" where
  "steady = SimplePlayer (\<lambda>ctx w. (None, w))"

definition failing :: "string \<Rightarrow> (nat, string, nat) Player" where
  "failing x = SimplePlayer (\<lambda>ctx w. (Some x, w))"

definition broken :: "string \<Rightarrow> (nat, string, nat) Player" where
  "broken y =
     \<lparr>Player_Setup = (\<lambda>w. (Some y, w)),
      Player_Play = (\<lambda>ctx w. (None, w)),
      Player_Clean = (\<lambda>w. w)\<rparr>"

definition once :: "(nat, string, nat) Player" where
  "once =
     \<lparr>Player_Setup = (\<lambda>w. if w = 0 then (None, 1) else (Some ''busy'', w)),
      Player_Play = (\<lambda>ctx w. (None, w)),
      Player_Clean = (\<lambda>w. w)\<rparr>"

definition fresh :: "(nat, string, nat) env" where
  "fresh = \<lparr>world = 0, calls = []\<rparr>"

text \<open>A stage of \<open>steady\<close> as \<open>a\<close> and \<open>failing ''X''\<close> as \<open>b\<close>, and one order of its entries.\<close>

definition duo :: "(nat, string, nat) Stage" where
  "duo = Add (Add NewStage ''a'' steady) ''b'' (failing ''X'')"

definition duo_its :: "(name \<times> (nat, string, nat) Player) list" where
  "duo_its = [(''b'', failing ''X''), (''a'', steady)]"



text \<open>A stage of \<open>once\<close> alone.\<close>

definition solo :: "(nat, string, nat) Stage" where
  "solo = Add NewStage ''a'' once"

definition solo_its :: "(name \<times> (nat, string, nat) Player) list" where
  "solo_its = [(''a'', once)]"

section \<open>Proofs\<close>

subsection \<open>Schedules\<close>


lemma run_invariant:
  assumes "run stp sched c = Some c'" and "I c"
    and "\<And>t c c'. I c \<Longrightarrow> stp t c = Some c' \<Longrightarrow> I c'"
  shows "I c'"
  using assms(1,2)
proof (induction sched arbitrary: c)
  case Nil
  then show ?case by simp
next
  case (Cons t ts)
  then show ?case using assms(3) by (auto split: option.splits)
qed

text \<open>
  A machine whose every step keeps an invariant and lowers a measure, and that can step
  wherever it has not ended, has a schedule to its end from every state of the invariant.
\<close>

lemma run_completes:
  fixes \<mu> :: "'a \<Rightarrow> nat"
  assumes inv: "\<And>t c c'. I c \<Longrightarrow> stp t c = Some c' \<Longrightarrow> I c'"
    and progress: "\<And>c. I c \<Longrightarrow> \<not> final c \<Longrightarrow> \<exists>t c'. stp t c = Some c'"
    and decrease: "\<And>t c c'. I c \<Longrightarrow> stp t c = Some c' \<Longrightarrow> \<mu> c' < \<mu> c"
    and "I c"
  shows "\<exists>sched c'. run stp sched c = Some c' \<and> final c'"
  using \<open>I c\<close>
proof (induction "\<mu> c" arbitrary: c rule: less_induct)
  case less
  show ?case
  proof (cases "final c")
    case True
    then have "run stp [] c = Some c \<and> final c" by simp
    then show ?thesis by blast
  next
    case False
    with progress less.prems obtain t c1 where st: "stp t c = Some c1" by blast
    with less.prems have "I c1" and "\<mu> c1 < \<mu> c" using inv decrease by blast+
    with less.hyps obtain sched c' where "run stp sched c1 = Some c'" "final c'" by blast
    with st have "run stp (t # sched) c = Some c' \<and> final c'" by simp
    then show ?thesis by blast
  qed
qed

subsection \<open>Ranges of a map, and the log\<close>

lemma ranges_card: "ranges m its \<Longrightarrow> card (dom m) = length its"
  unfolding ranges_def
  by (metis distinct_card dom_map_of_conv_image_fst length_map list.set_map)

lemma ranges_lookup: "ranges m its \<Longrightarrow> (m n = Some it) = ((n, it) \<in> set its)"
  unfolding ranges_def by auto

lemma ranges_dom:
  assumes "ranges m its"
  shows "dom m = fst ` set its"
proof -
  from assms have "map_of its = m" by (simp add: ranges_def)
  moreover have "dom (map_of its) = fst ` set its" by (rule dom_map_of_conv_image_fst)
  ultimately show ?thesis by simp
qed

lemma ranges_empty: "ranges Map.empty its \<longleftrightarrow> its = []"
proof
  assume "ranges Map.empty its"
  then have "fst ` set its = {}" using ranges_dom by fastforce
  then show "its = []" by simp
next
  assume "its = []"
  then show "ranges Map.empty its" by (simp add: ranges_def)
qed

lemma new_calls_append: "calls \<sigma>' = calls \<sigma> @ L \<Longrightarrow> new_calls \<sigma> \<sigma>' = L"
  by (simp add: new_calls_def)

lemma count_list_distinct:
  assumes "distinct xs" and "x \<in> set xs"
  shows "count_list xs x = 1"
  using assms by (induction xs) auto

subsection \<open>Sums over the goroutines\<close>

lemma sum_list_same:
  fixes f g :: "'a \<Rightarrow> nat"
  assumes "\<And>x. x \<in> set xs \<Longrightarrow> f x = g x"
  shows "sum_list (map f xs) = sum_list (map g xs)"
  using assms by (induction xs) auto

lemma sum_list_point:
  fixes f g :: "'a \<Rightarrow> nat"
  assumes "distinct xs" and "n \<in> set xs" and "\<And>x. x \<in> set xs \<Longrightarrow> x \<noteq> n \<Longrightarrow> g x = f x"
  shows "sum_list (map g xs) + f n = sum_list (map f xs) + g n"
  using assms
proof (induction xs)
  case Nil
  then show ?case by simp
next
  case (Cons a xs)
  show ?case
  proof (cases "a = n")
    case True
    with Cons.prems have "\<And>x. x \<in> set xs \<Longrightarrow> g x = f x" by auto
    then have "sum_list (map g xs) = sum_list (map f xs)"
      by (rule sum_list_same)
    with True show ?thesis by simp
  next
    case False
    with Cons show ?thesis by simp
  qed
qed

lemma left_sum_empty: "left_sum wt its Map.empty = length its * wt None"
  by (induction its) (auto simp: left_sum_def)

lemma left_sum_keep:
  assumes "wt (Some x) = wt (gos n)"
  shows "left_sum wt its (gos(n \<mapsto> x)) = left_sum wt its gos"
  unfolding left_sum_def using assms by (intro sum_list_same) auto

lemma left_sum_upd:
  assumes "distinct (map fst its)" and "(n, jt) \<in> set its"
  shows "left_sum wt its (gos(n \<mapsto> x)) + wt (gos n) = left_sum wt its gos + wt (Some x)"
proof -
  have "n \<in> set (map fst its)" using assms(2) by force
  then have "sum_list (map (\<lambda>m. wt ((gos(n \<mapsto> x)) m)) (map fst its)) + wt (gos n)
      = sum_list (map (\<lambda>m. wt (gos m)) (map fst its)) + wt ((gos(n \<mapsto> x)) n)"
    using assms(1) by (intro sum_list_point) simp_all
  then show ?thesis by (simp add: left_sum_def)
qed

lemma left_sum_zero:
  assumes "left_sum wt its gos = 0" and "(n, jt) \<in> set its"
  shows "wt (gos n) = 0"
proof -
  from assms(2) have "n \<in> set (map fst its)" by force
  with assms(1) show ?thesis unfolding left_sum_def by auto
qed

lemma left_sum_pos:
  assumes "left_sum wt its gos \<noteq> 0"
  shows "\<exists>n \<in> fst ` set its. wt (gos n) \<noteq> 0"
proof (rule ccontr)
  assume "\<not> ?thesis"
  then have "\<And>x. x \<in> set (map fst its) \<Longrightarrow> wt (gos x) = 0" by force
  then have "sum_list (map (\<lambda>n. wt (gos n)) (map fst its)) = sum_list (map (\<lambda>n. 0) (map fst its))"
    by (rule sum_list_same)
  then have "left_sum wt its gos = 0" by (simp add: left_sum_def)
  with assms show False by simp
qed

lemma pending_empty: "pending fin its Map.empty = length its"
  by (simp add: pending_def left_sum_empty waits_def gone_def)

lemma pending_zero:
  assumes "pending fin its gos = 0" and "(n, jt) \<in> set its"
  shows "gone fin (gos n)"
proof -
  from assms have "waits fin (gos n) = 0" unfolding pending_def by (rule left_sum_zero)
  then show ?thesis by (simp add: waits_def split: if_splits)
qed

lemma pending_keep:
  assumes "gone fin (Some x) = gone fin (gos n)"
  shows "pending fin its (gos(n \<mapsto> x)) = pending fin its gos"
  unfolding pending_def using assms by (intro left_sum_keep) (simp add: waits_def)

lemma pending_exit:
  assumes "distinct (map fst its)" and "(n, jt) \<in> set its"
    and "\<not> gone fin (gos n)" and "gone fin (Some x)"
  shows "pending fin its (gos(n \<mapsto> x)) + 1 = pending fin its gos"
proof -
  have "left_sum (waits fin) its (gos(n \<mapsto> x)) + waits fin (gos n)
      = left_sum (waits fin) its gos + waits fin (Some x)"
    using assms(1,2) by (rule left_sum_upd)
  with assms(3,4) show ?thesis by (simp add: pending_def waits_def)
qed

lemma pending_pos:
  assumes "pending fin its gos \<noteq> 0"
  shows "\<exists>n \<in> fst ` set its. \<not> gone fin (gos n)"
proof -
  from assms obtain n where "n \<in> fst ` set its" "waits fin (gos n) \<noteq> 0"
    unfolding pending_def using left_sum_pos[of "waits fin" its gos] by auto
  then show ?thesis by (auto simp: waits_def split: if_splits)
qed

subsection \<open>Setup\<close>

lemma SetupCall_in_setups:
  "SetupCall m x \<in> set (setup_calls its) \<longleftrightarrow> m \<in> fst ` set its \<and> x = None"
  unfolding setup_calls_def by (induction its) auto




lemma setup_calls_Cons: "setup_calls ((n, it) # its) = SetupCall n None # setup_calls its"
  by (simp add: setup_calls_def)


lemma count_setups:
  assumes "distinct (map fst its)" and "m \<in> fst ` set its"
  shows "count_list (setup_calls its) (SetupCall m None) = 1"
  using assms
proof (induction its)
  case Nil
  then show ?case by simp
next
  case (Cons a its)
  obtain n it where a: "a = (n, it)" by (cases a)
  show ?case
  proof (cases "m = n")
    case True
    with Cons.prems a have "m \<notin> fst ` set its" by simp
    then have "count_list (setup_calls its) (SetupCall m None) = 0"
      by (simp add: count_list_0_iff SetupCall_in_setups)
    with True a show ?thesis by (simp add: setup_calls_Cons)
  next
    case False
    with Cons a show ?thesis by (simp add: setup_calls_Cons)
  qed
qed



lemma Setup_loop_succeed:
  "setups_succeed its (world \<sigma>) \<Longrightarrow>
   Setup_loop its good \<sigma> =
     ((None, [], good @ its),
      \<lparr>world = setups_world its (world \<sigma>),
       calls = calls \<sigma> @ setup_calls its\<rparr>)"
proof (induction its arbitrary: good \<sigma>)
  case Nil
  show ?case by (cases \<sigma>) (simp add: setup_calls_def clean_calls_def)
next
  case (Cons a its)
  then show ?case
    by (cases a) (auto simp: call_Setup_def setup_calls_def split: prod.splits option.splits)
qed



lemma Setup_succeeds:
  assumes "setups_succeed its (world \<sigma>)"
  shows "Setup s its \<sigma> =
     (None, s\<lparr>beenSetup := True\<rparr>,
      \<lparr>world = setups_world its (world \<sigma>),
       calls = calls \<sigma> @ setup_calls its\<rparr>)"
  using assms by (simp add: Setup_def Setup_loop_succeed)

text \<open>Whatever the players do, \<open>Setup\<close> leaves the registry alone and never clears the flag.\<close>

lemma Setup_stage:
  assumes "Setup s its \<sigma> = (r, s', \<sigma>')"
  shows "players s' = players s \<and> (beenSetup s' \<longleftrightarrow> beenSetup s \<or> r = None)"
  using assms by (auto simp: Setup_def split: prod.splits option.splits)

subsection \<open>Clean: the invariants\<close>









subsection \<open>Clean: every call can be taken to its end\<close>





subsection \<open>Clean: what a call that has returned has done\<close>


subsection \<open>Play: the invariants\<close>

lemma play_inv_init: "play_inv its (Play_init \<sigma>)"
  by (simp add: play_inv_def Play_init_def)

lemma play_spawn_fresh:
  assumes r: "ranges (players s) its" and i: "play_inv its c"
    and pc: "ppc c = P_range ((n, it) # rest)"
  shows "pgos c n = None"
proof -
  from i pc obtain pre where
    pre: "its = pre @ (n, it) # rest" "dom (pgos c) = fst ` set pre"
    by (auto simp: play_inv_def)
  from r pre have "n \<notin> fst ` set pre" by (auto simp: ranges_def)
  with pre show ?thesis by (metis domIff)
qed

lemma play_inv_main:
  assumes r: "ranges (players s) its" and i: "play_inv its c"
    and st: "Play_main s its (ppc c) c = Some c'"
  shows "play_inv its c'"
proof (cases "ppc c")
  case P_entry
  with i st r show ?thesis
    by (auto simp: play_inv_def ranges_card pending_empty split: if_splits)
next
  case (P_range rest)
  show ?thesis
  proof (cases rest)
    case Nil
    with P_range i st show ?thesis by (auto simp: play_inv_def)
  next
    case (Cons a rest')
    obtain n it where a: "a = (n, it)" by (cases a)
    from i P_range Cons a obtain pre where
      pre: "its = pre @ (n, it) # rest'" "dom (pgos c) = fst ` set pre"
      by (auto simp: play_inv_def)
    have none: "pgos c n = None"
      using play_spawn_fresh[OF r i] P_range Cons a by simp
    have c': "c' = c\<lparr>pgos := (pgos c)(n \<mapsto> (it, G_call)), ppc := P_range rest'\<rparr>"
      using st P_range Cons a by simp
    from i P_range have nf: "\<not> pfault c"
      and mem: "\<forall>m jt g. pgos c m = Some (jt, g) \<longrightarrow> (m, jt) \<in> set its"
      and wgc: "pwg c = pending G_exit its (pgos c)"
      and rest: "\<not> eclosed c" "ecap c = length its"
      by (auto simp: play_inv_def)
    have 1: "pending G_exit its ((pgos c)(n \<mapsto> (it, G_call))) = pending G_exit its (pgos c)"
      using none by (intro pending_keep) (simp add: gone_def)
    have 2: "\<exists>pre'. its = pre' @ rest' \<and> dom (pgos c') = fst ` set pre'"
      using pre unfolding c' by (intro exI[of _ "pre @ [(n, it)]"]) auto
    have 3: "\<forall>m jt g. pgos c' m = Some (jt, g) \<longrightarrow> (m, jt) \<in> set its"
      using mem pre(1) unfolding c' by auto
    show ?thesis
      unfolding play_inv_def using nf 1 2 3 wgc rest by (simp add: c')
  qed
next
  case P_wait
  with i st have z: "pending G_exit its (pgos c) = 0" and c': "c' = c\<lparr>ppc := P_close\<rparr>"
    by (auto simp: play_inv_def split: if_splits)
  have "\<forall>n \<in> fst ` set its. gone G_exit (pgos c n)"
    using pending_zero[OF z] by auto
  with i P_wait show ?thesis unfolding c' play_inv_def by simp
next
  case P_close
  with i st show ?thesis by (auto simp: play_inv_def)
next
  case (P_drain err)
  with i st show ?thesis
    by (auto simp: play_inv_def split: list.splits if_splits)
next
  case (P_return r)
  with st show ?thesis by simp
next
  case P_panic
  with st show ?thesis by simp
qed

lemma play_not_gone:
  assumes i: "play_inv its c" and g: "pgos c n = Some (it, g)" and ne: "g \<noteq> G_exit"
  shows "(\<exists>rest. ppc c = P_range rest) \<or> ppc c = P_wait"
proof -
  from i g have nin: "(n, it) \<in> set its" by (auto simp: play_inv_def)
  then have n: "n \<in> fst ` set its" by force
  from g ne have ng: "\<not> gone G_exit (pgos c n)" by (simp add: gone_def)
  show ?thesis
  proof (cases "ppc c")
    case P_entry
    with i g show ?thesis by (simp add: play_inv_def)
  next
    case P_close
    with i nin ng show ?thesis by (force simp: play_inv_def)
  next
    case (P_drain err)
    with i nin ng show ?thesis by (force simp: play_inv_def)
  next
    case (P_return r)
    with i nin ng show ?thesis by (force simp: play_inv_def)
  next
    case P_panic
    with i g show ?thesis by (simp add: play_inv_def)
  qed simp_all
qed

lemma play_inv_upd:
  assumes i: "play_inv its c" and g: "pgos c n = Some (it, g)" and ne: "g \<noteq> G_exit"
    and wg: "pwg c' = pending G_exit its (pgos c')"
    and c': "pgos c' = (pgos c)(n \<mapsto> (it, g'))" "ppc c' = ppc c" "pfault c' = pfault c"
      "eclosed c' = eclosed c" "ecap c' = ecap c"
  shows "play_inv its c'"
proof -
  from i g have nin: "(n, it) \<in> set its" by (auto simp: play_inv_def)
  have d: "dom (pgos c') = dom (pgos c)" using g c'(1) by auto
  have m: "\<forall>m jt h. pgos c' m = Some (jt, h) \<longrightarrow> (m, jt) \<in> set its"
    using i nin c'(1) by (auto simp: play_inv_def)
  from play_not_gone[OF i g ne] show ?thesis
  proof
    assume "\<exists>rest. ppc c = P_range rest"
    then obtain rest where "ppc c = P_range rest" by blast
    with i m d wg c' show ?thesis by (simp add: play_inv_def)
  next
    assume "ppc c = P_wait"
    with i m d wg c' show ?thesis by (simp add: play_inv_def)
  qed
qed

lemma play_inv_go:
  assumes r: "ranges (players s) its" and i: "play_inv its c"
    and g: "pgos c n = Some (it, g)"
    and st: "Play_go ctx n it g c = Some c'"
  shows "play_inv its c'"
proof -
  from i g have nin: "(n, it) \<in> set its" by (auto simp: play_inv_def)
  from r have d: "distinct (map fst its)" by (simp add: ranges_def)
  have wgc: "pwg c = pending G_exit its (pgos c)" and nc: "\<not> eclosed c" if "g \<noteq> G_exit"
    using play_not_gone[OF i g that] i by (auto simp: play_inv_def)
  show ?thesis
  proof (cases g)
    case G_call
    obtain e \<sigma>' where cp: "call_Play n it ctx (penv c) = (e, \<sigma>')" by (cases "call_Play n it ctx (penv c)")
    with G_call st have c': "c' = c\<lparr>penv := \<sigma>', pgos := (pgos c)(n \<mapsto> (it, G_send e))\<rparr>"
      by simp
    have "pending G_exit its ((pgos c)(n \<mapsto> (it, G_send e))) = pending G_exit its (pgos c)"
      using g G_call by (intro pending_keep) (simp add: gone_def)
    with wgc G_call have wg': "pwg c' = pending G_exit its (pgos c')" by (simp add: c')
    show ?thesis by (rule play_inv_upd[OF i g _ wg']) (simp_all add: c' G_call)
  next
    case (G_send e)
    have keep: "pending G_exit its ((pgos c)(n \<mapsto> (it, G_defer))) = pending G_exit its (pgos c)"
      using g G_send by (intro pending_keep) (simp add: gone_def)
    show ?thesis
    proof (cases e)
      case None
      with G_send st have c': "c' = c\<lparr>pgos := (pgos c)(n \<mapsto> (it, G_defer))\<rparr>" by simp
      from keep wgc G_send have wg': "pwg c' = pending G_exit its (pgos c')" by (simp add: c')
      show ?thesis by (rule play_inv_upd[OF i g _ wg']) (simp_all add: c' G_send)
    next
      case (Some v)
      with G_send st nc
      have c': "c' = c\<lparr>echan := echan c @ [(n, v)], pgos := (pgos c)(n \<mapsto> (it, G_defer))\<rparr>"
        by (auto split: if_splits)
      from keep wgc G_send have wg': "pwg c' = pending G_exit its (pgos c')" by (simp add: c')
      show ?thesis by (rule play_inv_upd[OF i g _ wg']) (simp_all add: c' G_send)
    qed
  next
    case G_defer
    have 1: "pending G_exit its ((pgos c)(n \<mapsto> (it, G_exit))) + 1 = pending G_exit its (pgos c)"
      using d nin g G_defer by (intro pending_exit) (auto simp: gone_def)
    with wgc G_defer have pos: "pwg c \<noteq> 0" by simp
    then have c': "c' = c\<lparr>pwg := pwg c - 1, pgos := (pgos c)(n \<mapsto> (it, G_exit))\<rparr>"
      using st G_defer by simp
    from 1 wgc G_defer have wg': "pwg c' = pending G_exit its (pgos c')" by (simp add: c')
    show ?thesis by (rule play_inv_upd[OF i g _ wg']) (simp_all add: c' G_defer)
  next
    case G_exit
    with st show ?thesis by simp
  qed
qed

lemma play_inv_step:
  assumes "ranges (players s) its" and "play_inv its c"
    and "Play_step s ctx its t c = Some c'"
  shows "play_inv its c'"
  using assms
  by (cases t)
     (auto simp: Play_step_def split: if_splits option.splits intro: play_inv_main play_inv_go)

lemma play_chan_init: "play_chan (Play_init \<sigma>)"
  by (simp add: play_chan_def Play_init_def)

lemma sent_simps [simp]:
  "sent None = False" "sent (Some (it, G_call)) = False" "sent (Some (it, G_send e)) = False"
  "sent (Some (it, G_defer)) = True" "sent (Some (it, G_exit)) = True"
  by (simp_all add: sent_def)

lemma play_chan_same:
  assumes "play_chan c" and "pgos c' = pgos c" and "echan c' = echan c"
  shows "play_chan c'"
  using assms by (simp add: play_chan_def)

lemma play_chan_upd:
  assumes ch: "play_chan c" and ns: "\<not> sent (pgos c n)"
    and c': "pgos c' = (pgos c)(n \<mapsto> x)" "echan c' = echan c"
  shows "play_chan c'"
proof -
  have "sent (pgos c' m)" if "(m, v) \<in> set (echan c)" for m v
  proof -
    from ch that have s: "sent (pgos c m)" by (auto simp: play_chan_def)
    with ns have "m \<noteq> n" by auto
    with s c'(1) show ?thesis by simp
  qed
  then have "\<forall>m v. (m, v) \<in> set (echan c') \<longrightarrow> sent (pgos c' m)"
    by (simp add: c'(2))
  moreover from ch c'(2) have "distinct (map fst (echan c'))" by (simp add: play_chan_def)
  ultimately show ?thesis by (simp add: play_chan_def)
qed

lemma play_chan_main:
  assumes r: "ranges (players s) its" and i: "play_inv its c" and ch: "play_chan c"
    and st: "Play_main s its (ppc c) c = Some c'"
  shows "play_chan c'"
proof (cases "ppc c")
  case P_entry
  with st have "pgos c' = pgos c \<and> echan c' = echan c" by (auto split: if_splits)
  with ch show ?thesis by (simp add: play_chan_def)
next
  case (P_range rest)
  show ?thesis
  proof (cases rest)
    case Nil
    with P_range st have "pgos c' = pgos c \<and> echan c' = echan c" by auto
    with ch show ?thesis by (simp add: play_chan_def)
  next
    case (Cons a rest')
    obtain n it where a: "a = (n, it)" by (cases a)
    have none: "pgos c n = None"
      using play_spawn_fresh[OF r i] P_range Cons a by simp
    have c': "c' = c\<lparr>pgos := (pgos c)(n \<mapsto> (it, G_call)), ppc := P_range rest'\<rparr>"
      using st P_range Cons a by simp
    from none have "\<not> sent (pgos c n)" by simp
    with ch show ?thesis by (rule play_chan_upd) (simp_all add: c')
  qed
next
  case P_wait
  with st have "pgos c' = pgos c \<and> echan c' = echan c" by (auto split: if_splits)
  with ch show ?thesis by (simp add: play_chan_def)
next
  case P_close
  with st have "pgos c' = pgos c \<and> echan c' = echan c" by auto
  with ch show ?thesis by (simp add: play_chan_def)
next
  case (P_drain err)
  show ?thesis
  proof (cases "echan c")
    case Nil
    with P_drain st have "pgos c' = pgos c \<and> echan c' = echan c" by (auto split: if_splits)
    with ch show ?thesis by (simp add: play_chan_def)
  next
    case (Cons a rest)
    with P_drain st have e: "pgos c' = pgos c" "echan c' = rest" by (auto split: prod.splits)
    from ch Cons have "distinct (map fst rest)"
      and "\<forall>m v. (m, v) \<in> set rest \<longrightarrow> sent (pgos c m)"
      by (simp_all add: play_chan_def)
    with e show ?thesis by (simp add: play_chan_def)
  qed
next
  case (P_return r)
  with st show ?thesis by simp
next
  case P_panic
  with st show ?thesis by simp
qed

lemma play_chan_go:
  assumes ch: "play_chan c" and g: "pgos c n = Some (it, g)"
    and st: "Play_go ctx n it g c = Some c'"
  shows "play_chan c'"
proof (cases g)
  case G_call
  obtain e \<sigma>' where cp: "call_Play n it ctx (penv c) = (e, \<sigma>')" by (cases "call_Play n it ctx (penv c)")
  with G_call st have c': "c' = c\<lparr>penv := \<sigma>', pgos := (pgos c)(n \<mapsto> (it, G_send e))\<rparr>"
    by simp
  from g G_call have "\<not> sent (pgos c n)" by simp
  with ch show ?thesis by (rule play_chan_upd) (simp_all add: c')
next
  case (G_send e)
  from g G_send have ns: "\<not> sent (pgos c n)" by simp
  show ?thesis
  proof (cases e)
    case None
    with G_send st have c': "c' = c\<lparr>pgos := (pgos c)(n \<mapsto> (it, G_defer))\<rparr>" by simp
    from ch ns show ?thesis by (rule play_chan_upd) (simp_all add: c')
  next
    case (Some v)
    show ?thesis
    proof (cases "eclosed c")
      case True
      with G_send Some st have "c' = c\<lparr>pfault := True\<rparr>" by simp
      with ch show ?thesis by (simp add: play_chan_def)
    next
      case False
      with G_send Some st
      have c': "c' = c\<lparr>echan := echan c @ [(n, v)], pgos := (pgos c)(n \<mapsto> (it, G_defer))\<rparr>"
        by (auto split: if_splits)
      from ch ns have nin: "n \<notin> fst ` set (echan c)" by (auto simp: play_chan_def)
      have "sent (pgos c' m)" if "(m, w) \<in> set (echan c)" for m w
      proof -
        from ch that have "sent (pgos c m)" by (auto simp: play_chan_def)
        with ns have "m \<noteq> n" by auto
        with \<open>sent (pgos c m)\<close> show ?thesis by (simp add: c')
      qed
      then have "\<forall>m w. (m, w) \<in> set (echan c') \<longrightarrow> sent (pgos c' m)"
        by (auto simp: c')
      moreover from ch nin have "distinct (map fst (echan c'))"
        by (simp add: play_chan_def c')
      ultimately show ?thesis by (simp add: play_chan_def)
    qed
  qed
next
  case G_defer
  show ?thesis
  proof (cases "pwg c = 0")
    case True
    with G_defer st have "c' = c\<lparr>pfault := True\<rparr>" by simp
    with ch show ?thesis by (simp add: play_chan_def)
  next
    case False
    with G_defer st have c': "c' = c\<lparr>pwg := pwg c - 1, pgos := (pgos c)(n \<mapsto> (it, G_exit))\<rparr>"
      by simp
    have "sent (pgos c' m)" if "(m, w) \<in> set (echan c)" for m w
    proof -
      from ch that have "sent (pgos c m)" by (auto simp: play_chan_def)
      then show ?thesis by (simp add: c')
    qed
    then have "\<forall>m w. (m, w) \<in> set (echan c') \<longrightarrow> sent (pgos c' m)"
      by (simp add: c')
    moreover from ch have "distinct (map fst (echan c'))" by (simp add: play_chan_def c')
    ultimately show ?thesis by (simp add: play_chan_def)
  qed
next
  case G_exit
  with st show ?thesis by simp
qed

lemma play_chan_step:
  assumes "ranges (players s) its" and "play_inv its c" and "play_chan c"
    and "Play_step s ctx its t c = Some c'"
  shows "play_chan c'"
  using assms
  by (cases t)
     (auto simp: Play_step_def split: if_splits option.splits intro: play_chan_main play_chan_go)

text \<open>The send of a goroutine never blocks: the buffer has room for every player.\<close>

lemma play_send_room:
  assumes r: "ranges (players s) its" and i: "play_inv its c" and ch: "play_chan c"
    and g: "pgos c n = Some (it, G_send e)"
  shows "length (echan c) < ecap c"
proof -
  from r have d: "distinct (map fst its)" by (simp add: ranges_def)
  from i g have nin: "(n, it) \<in> set its" by (auto simp: play_inv_def)
  have cap: "ecap c = length its"
    using play_not_gone[OF i g] i by (auto simp: play_inv_def)
  from ch have dch: "distinct (map fst (echan c))" by (simp add: play_chan_def)
  have sub: "set (map fst (echan c)) \<subseteq> set (map fst its) - {n}"
  proof
    fix m assume "m \<in> set (map fst (echan c))"
    then obtain v where mv: "(m, v) \<in> set (echan c)" by auto
    with ch have s: "sent (pgos c m)" by (auto simp: play_chan_def)
    with g have "m \<noteq> n" by auto
    from s obtain jt h where "pgos c m = Some (jt, h)"
      by (cases "pgos c m") (auto simp: sent_def)
    with i have "(m, jt) \<in> set its" by (auto simp: play_inv_def)
    then have "m \<in> set (map fst its)" by force
    with \<open>m \<noteq> n\<close> show "m \<in> set (map fst its) - {n}" by simp
  qed
  have "length (echan c) = card (set (map fst (echan c)))"
    using distinct_card[OF dch] by simp
  also have "\<dots> \<le> card (set (map fst its) - {n})"
    using sub by (intro card_mono) simp_all
  also have "\<dots> < card (set (map fst its))"
    using nin by (intro card_Diff1_less) force+
  also have "\<dots> = length its" using distinct_card[OF d] by simp
  finally show ?thesis using cap by simp
qed

lemma play_ok_step:
  assumes r: "ranges (players s) its" and ok: "play_ok its c"
    and st: "Play_step s ctx its t c = Some c'"
  shows "play_ok its c'"
proof -
  from ok have i: "play_inv its c" and ch: "play_chan c" by (simp_all add: play_ok_def)
  from play_inv_step[OF r i st] play_chan_step[OF r i ch st] show ?thesis
    by (simp add: play_ok_def)
qed

lemma play_progress:
  assumes r: "ranges (players s) its" and ok: "play_ok its c" and nf: "\<not> play_ended (ppc c)"
  shows "\<exists>t c'. Play_step s ctx its t c = Some c'"
proof -
  from ok have i: "play_inv its c" and ch: "play_chan c" by (simp_all add: play_ok_def)
  from i have f: "\<not> pfault c" by (simp add: play_inv_def)
  have main: ?thesis if "Play_main s its (ppc c) c \<noteq> None"
  proof -
    from that f have "Play_step s ctx its Main c \<noteq> None" by (simp add: Play_step_def)
    then obtain c' where "Play_step s ctx its Main c = Some c'" by auto
    then show ?thesis by (intro exI)
  qed
  show ?thesis
  proof (cases "ppc c")
    case P_entry
    then show ?thesis by (intro main) simp
  next
    case (P_range rest)
    then show ?thesis by (intro main) (cases rest; auto)
  next
    case P_wait
    show ?thesis
    proof (cases "pwg c = 0")
      case True
      with P_wait show ?thesis by (intro main) simp
    next
      case False
      with P_wait i have "pending G_exit its (pgos c) \<noteq> 0" and d: "dom (pgos c) = fst ` set its"
        and nc: "\<not> eclosed c"
        by (auto simp: play_inv_def)
      then obtain n where n: "n \<in> fst ` set its" "\<not> gone G_exit (pgos c n)"
        using pending_pos[of G_exit its "pgos c"] by auto
      from n d have "n \<in> dom (pgos c)" by simp
      then obtain x where "pgos c n = Some x" by blast
      then obtain it g where g: "pgos c n = Some (it, g)" by (cases x) simp
      with n have ne: "g \<noteq> G_exit" by (auto simp: gone_def)
      have "Play_go ctx n it g c \<noteq> None"
      proof (cases g)
        case G_call
        then show ?thesis by (simp split: prod.splits)
      next
        case (G_send e)
        with g have "length (echan c) < ecap c" using play_send_room[OF r i ch] by simp
        with G_send nc show ?thesis by (cases e) simp_all
      next
        case G_defer
        then show ?thesis by simp
      next
        case G_exit
        with ne show ?thesis by simp
      qed
      with f g have "Play_step s ctx its (Go n) c \<noteq> None" by (simp add: Play_step_def)
      then obtain c' where "Play_step s ctx its (Go n) c = Some c'" by auto
      then show ?thesis by (intro exI)
    qed
  next
    case P_close
    then show ?thesis by (intro main) simp
  next
    case (P_drain err)
    with i have "eclosed c" by (simp add: play_inv_def)
    with P_drain show ?thesis by (intro main) (auto split: list.splits)
  next
    case (P_return r)
    with nf show ?thesis by simp
  next
    case P_panic
    with nf show ?thesis by simp
  qed
qed

lemma play_left_go:
  assumes d: "distinct (map fst its)" and nin: "(n, it) \<in> set its"
  shows "left_sum play_go_left its (gos(n \<mapsto> x)) + play_go_left (gos n)
       = left_sum play_go_left its gos + play_go_left (Some x)"
  using d nin by (rule left_sum_upd)

lemma play_decrease:
  assumes r: "ranges (players s) its" and ok: "play_ok its c"
    and st: "Play_step s ctx its t c = Some c'"
  shows "play_left its c' < play_left its c"
proof -
  from ok have i: "play_inv its c" by (simp add: play_ok_def)
  from play_inv_step[OF r i st] have nf': "\<not> pfault c'" by (simp add: play_inv_def)
  from r have d: "distinct (map fst its)" by (simp add: ranges_def)
  show ?thesis
  proof (cases t)
    case Main
    with st i have m: "Play_main s its (ppc c) c = Some c'"
      by (simp add: Play_step_def play_inv_def)
    show ?thesis
    proof (cases "ppc c")
      case P_entry
      with m show ?thesis by (auto simp: play_left_def split: if_splits)
    next
      case (P_range rest)
      show ?thesis
      proof (cases rest)
        case Nil
        with P_range m show ?thesis by (auto simp: play_left_def)
      next
        case (Cons a rest')
        obtain n it where a: "a = (n, it)" by (cases a)
        have none: "pgos c n = None"
          using play_spawn_fresh[OF r i] P_range Cons a by simp
        have c': "c' = c\<lparr>pgos := (pgos c)(n \<mapsto> (it, G_call)), ppc := P_range rest'\<rparr>"
          using m P_range Cons a by simp
        have "left_sum play_go_left its ((pgos c)(n \<mapsto> (it, G_call)))
            = left_sum play_go_left its (pgos c)"
          using none by (intro left_sum_keep) (simp add: play_go_left_def)
        then show ?thesis unfolding c' play_left_def using P_range Cons by simp
      qed
    next
      case P_wait
      with m show ?thesis by (auto simp: play_left_def split: if_splits)
    next
      case P_close
      with m show ?thesis by (auto simp: play_left_def)
    next
      case (P_drain err)
      with m show ?thesis by (auto simp: play_left_def split: list.splits if_splits)
    next
      case (P_return r)
      with m show ?thesis by simp
    next
      case P_panic
      with m show ?thesis by simp
    qed
  next
    case (Go n)
    with st i obtain it g where g: "pgos c n = Some (it, g)" and m: "Play_go ctx n it g c = Some c'"
      by (auto simp: Play_step_def play_inv_def split: option.splits)
    from i g have nin: "(n, it) \<in> set its" by (auto simp: play_inv_def)
    note upd = play_left_go[where gos = "pgos c" and n = n, OF d nin]
    show ?thesis
    proof (cases g)
      case G_call
      obtain e \<sigma>' where cp: "call_Play n it ctx (penv c) = (e, \<sigma>')"
        by (cases "call_Play n it ctx (penv c)")
      with G_call m have c': "c' = c\<lparr>penv := \<sigma>', pgos := (pgos c)(n \<mapsto> (it, G_send e))\<rparr>"
        by simp
      from upd[of "(it, G_send e)"] g G_call show ?thesis
        unfolding c' play_left_def by (simp add: play_go_left_def)
    next
      case (G_send e)
      show ?thesis
      proof (cases e)
        case None
        with G_send m have c': "c' = c\<lparr>pgos := (pgos c)(n \<mapsto> (it, G_defer))\<rparr>" by simp
        from upd[of "(it, G_defer)"] g G_send show ?thesis
          unfolding c' play_left_def by (simp add: play_go_left_def)
      next
        case (Some v)
        with G_send m nf'
        have c': "c' = c\<lparr>echan := echan c @ [(n, v)], pgos := (pgos c)(n \<mapsto> (it, G_defer))\<rparr>"
          by (auto split: if_splits)
        from upd[of "(it, G_defer)"] g G_send show ?thesis
          unfolding c' play_left_def by (simp add: play_go_left_def)
      qed
    next
      case G_defer
      with m nf' have c': "c' = c\<lparr>pwg := pwg c - 1, pgos := (pgos c)(n \<mapsto> (it, G_exit))\<rparr>"
        by (auto split: if_splits)
      from upd[of "(it, G_exit)"] g G_defer show ?thesis
        unfolding c' play_left_def by (simp add: play_go_left_def)
    next
      case G_exit
      with m show ?thesis by simp
    qed
  qed
qed

lemma play_can_finish:
  assumes r: "ranges (players s) its" and ok: "play_ok its c"
  shows "\<exists>sched c'. run (Play_step s ctx its) sched c = Some c' \<and> play_ended (ppc c')"
proof (rule run_completes[where I = "play_ok its" and \<mu> = "play_left its"])
  show "play_ok its c" by (rule ok)
next
  fix t c c'
  assume "play_ok its c" and "Play_step s ctx its t c = Some c'"
  then show "play_ok its c'" by (rule play_ok_step[OF r])
next
  fix c :: "('a, 'b, 'c) play_cfg"
  assume "play_ok its c" and "\<not> play_ended (ppc c)"
  then show "\<exists>t c'. Play_step s ctx its t c = Some c'" by (rule play_progress[OF r])
next
  fix t c c'
  assume "play_ok its c" and "Play_step s ctx its t c = Some c'"
  then show "play_left its c' < play_left its c" by (rule play_decrease[OF r])
qed

lemma played_simps [simp]:
  "played None = False" "played (Some (it, G_call)) = False" "played (Some (it, G_send e)) = True"
  "played (Some (it, G_defer)) = True" "played (Some (it, G_exit)) = True"
  by (simp_all add: played_def)

lemma plays_unique:
  assumes "plays ctx L" and "PlayCall n ctx e \<in> set L" and "PlayCall n ctx e' \<in> set L"
  shows "e = e'"
proof -
  from assms(1) have "inj_on call_name (set L)" by (simp add: plays_def distinct_map)
  moreover have "call_name (PlayCall n ctx e) = call_name (PlayCall n ctx e')" by simp
  ultimately have "PlayCall n ctx e = PlayCall n ctx e'"
    using assms(2,3) by (rule inj_onD)
  then show ?thesis by simp
qed

lemma plays_snoc:
  assumes "plays ctx L" and "\<not> (\<exists>e. PlayCall n ctx e \<in> set L)"
  shows "plays ctx (L @ [PlayCall n ctx e])"
proof -
  have "n \<notin> call_name ` set L"
  proof
    assume "n \<in> call_name ` set L"
    then obtain x where x: "x \<in> set L" "call_name x = n" by auto
    with assms(1) obtain m e' where "x = PlayCall m ctx e'" by (auto simp: plays_def)
    with x assms(2) show False by auto
  qed
  with assms(1) show ?thesis by (auto simp: plays_def)
qed

lemma play_log_init: "play_log ctx \<sigma> (Play_init \<sigma>)"
  by (simp add: play_log_def Play_init_def plays_def)

lemma play_log_keep:
  assumes l: "play_log ctx \<sigma> c" and "penv c' = penv c"
    and "\<And>n. played (pgos c' n) = played (pgos c n)"
    and "\<And>n it e. pgos c' n = Some (it, G_send e) \<Longrightarrow> pgos c n = Some (it, G_send e)"
  shows "play_log ctx \<sigma> c'"
proof -
  from l obtain L where L: "calls (penv c) = calls \<sigma> @ L" "plays ctx L"
    "\<forall>n. (\<exists>e. PlayCall n ctx e \<in> set L) \<longleftrightarrow> played (pgos c n)"
    "\<forall>n it e. pgos c n = Some (it, G_send e) \<longrightarrow> PlayCall n ctx e \<in> set L"
    unfolding play_log_def by blast
  have "calls (penv c') = calls \<sigma> @ L" using L(1) assms(2) by simp
  moreover have "\<forall>n. (\<exists>e. PlayCall n ctx e \<in> set L) \<longleftrightarrow> played (pgos c' n)"
    using L(3) assms(3) by simp
  moreover have "\<forall>n it e. pgos c' n = Some (it, G_send e) \<longrightarrow> PlayCall n ctx e \<in> set L"
    using L(4) assms(4) by blast
  ultimately show ?thesis unfolding play_log_def using L(2) by blast
qed

lemma play_log_main:
  assumes r: "ranges (players s) its" and i: "play_inv its c" and l: "play_log ctx \<sigma> c"
    and st: "Play_main s its (ppc c) c = Some c'"
  shows "play_log ctx \<sigma> c'"
proof (cases "\<exists>n it rest. ppc c = P_range ((n, it) # rest)")
  case True
  then obtain n it rest where pc: "ppc c = P_range ((n, it) # rest)" by blast
  have none: "pgos c n = None" using play_spawn_fresh[OF r i pc] .
  from st pc have c': "c' = c\<lparr>pgos := (pgos c)(n \<mapsto> (it, G_call)), ppc := P_range rest\<rparr>"
    by simp
  show ?thesis
  proof (rule play_log_keep[OF l])
    show "penv c' = penv c" by (simp add: c')
    show "played (pgos c' m) = played (pgos c m)" for m using none by (simp add: c')
    show "pgos c n' = Some (it', G_send e)" if "pgos c' n' = Some (it', G_send e)" for n' it' e
      using that by (cases "n' = n") (simp_all add: c')
  qed
next
  case False
  have same: "penv c' = penv c \<and> pgos c' = pgos c"
  proof (cases "ppc c")
    case (P_range rest)
    with False have "rest = []" by (cases rest) auto
    with P_range st show ?thesis by auto
  next
    case (P_drain err)
    with st show ?thesis by (auto split: list.splits if_splits)
  qed (use st in \<open>auto split: if_splits\<close>)
  show ?thesis by (rule play_log_keep[OF l]) (simp_all add: same)
qed

lemma play_log_go:
  assumes l: "play_log ctx \<sigma> c" and g: "pgos c n = Some (it, g)"
    and st: "Play_go ctx n it g c = Some c'"
  shows "play_log ctx \<sigma> c'"
proof (cases g)
  case G_call
  obtain e \<sigma>' where cp: "call_Play n it ctx (penv c) = (e, \<sigma>')"
    by (cases "call_Play n it ctx (penv c)")
  then have \<sigma>': "calls \<sigma>' = calls (penv c) @ [PlayCall n ctx e]"
    by (auto simp: call_Play_def split: prod.splits)
  from cp G_call st have c': "c' = c\<lparr>penv := \<sigma>', pgos := (pgos c)(n \<mapsto> (it, G_send e))\<rparr>"
    by simp
  from l obtain L where L: "calls (penv c) = calls \<sigma> @ L" "plays ctx L"
    "\<forall>n. (\<exists>e. PlayCall n ctx e \<in> set L) \<longleftrightarrow> played (pgos c n)"
    "\<forall>n it e. pgos c n = Some (it, G_send e) \<longrightarrow> PlayCall n ctx e \<in> set L"
    unfolding play_log_def by blast
  let ?L = "L @ [PlayCall n ctx e]"
  from L(3) g G_call have new: "\<not> (\<exists>e. PlayCall n ctx e \<in> set L)" by simp
  have 1: "calls (penv c') = calls \<sigma> @ ?L" using L(1) \<sigma>' by (simp add: c')
  have 2: "plays ctx ?L" using L(2) new by (rule plays_snoc)
  have 3: "\<forall>m. (\<exists>e. PlayCall m ctx e \<in> set ?L) \<longleftrightarrow> played (pgos c' m)"
  proof
    fix m
    show "(\<exists>e. PlayCall m ctx e \<in> set ?L) \<longleftrightarrow> played (pgos c' m)"
    proof (cases "m = n")
      case True
      then show ?thesis by (auto simp: c')
    next
      case False
      with L(3) show ?thesis by (simp add: c')
    qed
  qed
  have 4: "\<forall>m jt e'. pgos c' m = Some (jt, G_send e') \<longrightarrow> PlayCall m ctx e' \<in> set ?L"
  proof (intro allI impI)
    fix m jt e' assume a: "pgos c' m = Some (jt, G_send e')"
    show "PlayCall m ctx e' \<in> set ?L"
    proof (cases "m = n")
      case True
      with a show ?thesis by (simp add: c')
    next
      case False
      with a L(4) show ?thesis by (simp add: c')
    qed
  qed
  from 1 2 3 4 show ?thesis unfolding play_log_def by blast
next
  case (G_send e)
  have "penv c' = penv c \<and> (pgos c' = pgos c \<or> pgos c' = (pgos c)(n \<mapsto> (it, G_defer)))"
    using st G_send by (cases e) (auto split: if_splits)
  then have e1: "penv c' = penv c"
    and e2: "pgos c' = pgos c \<or> pgos c' = (pgos c)(n \<mapsto> (it, G_defer))" by simp_all
  show ?thesis
  proof (rule play_log_keep[OF l e1])
    show "played (pgos c' m) = played (pgos c m)" for m
      using e2 g G_send by (cases "m = n") auto
    show "pgos c n' = Some (it', G_send e')" if "pgos c' n' = Some (it', G_send e')" for n' it' e'
      using that e2 by (cases "n' = n") auto
  qed
next
  case G_defer
  have "penv c' = penv c \<and> (pgos c' = pgos c \<or> pgos c' = (pgos c)(n \<mapsto> (it, G_exit)))"
    using st G_defer by (auto split: if_splits)
  then have e1: "penv c' = penv c"
    and e2: "pgos c' = pgos c \<or> pgos c' = (pgos c)(n \<mapsto> (it, G_exit))" by simp_all
  show ?thesis
  proof (rule play_log_keep[OF l e1])
    show "played (pgos c' m) = played (pgos c m)" for m
      using e2 g G_defer by (cases "m = n") auto
    show "pgos c n' = Some (it', G_send e')" if "pgos c' n' = Some (it', G_send e')" for n' it' e'
      using that e2 by (cases "n' = n") auto
  qed
next
  case G_exit
  with st show ?thesis by simp
qed

lemma play_log_step:
  assumes "ranges (players s) its" and "play_inv its c" and "play_log ctx \<sigma> c"
    and "Play_step s ctx its t c = Some c'"
  shows "play_log ctx \<sigma> c'"
  using assms
  by (cases t)
     (auto simp: Play_step_def split: if_splits option.splits intro: play_log_main play_log_go)

lemma play_deliv_init: "play_deliv ctx \<sigma> (Play_init \<sigma>)"
  by (simp add: play_deliv_def delivered_def Play_init_def)

lemma play_deliv_keep:
  assumes pd: "play_deliv ctx \<sigma> c" and "delivered c' = delivered c" and "penv c' = penv c"
    and "\<And>m. sent (pgos c' m) = sent (pgos c m)"
    and "\<And>ep. ppc c' = P_drain (Some ep) \<or> ppc c' = P_return (Some ep) \<Longrightarrow> Players ep \<noteq> Map.empty"
  shows "play_deliv ctx \<sigma> c'"
  using assms unfolding play_deliv_def by simp

lemma play_deliv_main:
  assumes r: "ranges (players s) its" and i: "play_inv its c" and ch: "play_chan c"
    and pd: "play_deliv ctx \<sigma> c"
    and st: "Play_main s its (ppc c) c = Some c'"
  shows "play_deliv ctx \<sigma> c'"
proof (cases "ppc c")
  case P_entry
  show ?thesis
    by (rule play_deliv_keep[OF pd]) (use P_entry st in \<open>auto simp: delivered_def split: if_splits\<close>)
next
  case (P_range rest)
  show ?thesis
  proof (cases rest)
    case Nil
    show ?thesis
      by (rule play_deliv_keep[OF pd]) (use Nil P_range st in \<open>auto simp: delivered_def\<close>)
  next
    case (Cons a rest')
    obtain n it where a: "a = (n, it)" by (cases a)
    have none: "pgos c n = None"
      using play_spawn_fresh[OF r i] P_range Cons a by simp
    have c': "c' = c\<lparr>pgos := (pgos c)(n \<mapsto> (it, G_call)), ppc := P_range rest'\<rparr>"
      using st P_range Cons a by simp
    show ?thesis
    proof (rule play_deliv_keep[OF pd])
      show "delivered c' = delivered c" using P_range by (simp add: c' delivered_def)
      show "penv c' = penv c" by (simp add: c')
      show "sent (pgos c' m) = sent (pgos c m)" for m using none by (simp add: c')
      show "Players ep \<noteq> Map.empty" if "ppc c' = P_drain (Some ep) \<or> ppc c' = P_return (Some ep)" for ep
        using that by (simp add: c')
    qed
  qed
next
  case P_wait
  show ?thesis
    by (rule play_deliv_keep[OF pd]) (use P_wait st in \<open>auto simp: delivered_def split: if_splits\<close>)
next
  case P_close
  show ?thesis
    by (rule play_deliv_keep[OF pd]) (use P_close st in \<open>auto simp: delivered_def\<close>)
next
  case (P_drain err)
  from pd P_drain have ne: "err = Some ep \<Longrightarrow> Players ep \<noteq> Map.empty" for ep
    by (simp add: play_deliv_def)
  show ?thesis
  proof (cases "echan c")
    case Nil
    with P_drain st have c': "c' = c\<lparr>ppc := P_return err\<rparr>" by (auto split: if_splits)
    show ?thesis
    proof (rule play_deliv_keep[OF pd])
      show "delivered c' = delivered c" using P_drain by (simp add: c' delivered_def)
      show "Players ep \<noteq> Map.empty" if "ppc c' = P_drain (Some ep) \<or> ppc c' = P_return (Some ep)" for ep
        using that ne by (simp add: c')
    qed (simp_all add: c')
  next
    case (Cons a rest)
    obtain n v where a: "a = (n, v)" by (cases a)
    let ?m = "err_map err"
    have m: "(case err of None \<Rightarrow> Map.empty | Some ep \<Rightarrow> Players ep) = ?m"
      by (cases err) simp_all
    from P_drain Cons a st
    have c': "c' = c\<lparr>echan := rest, ppc := P_drain (Some (ErrPlay (?m(n \<mapsto> v))))\<rparr>"
      by (simp add: m)
    from ch Cons a have "n \<notin> fst ` set rest" by (simp add: play_chan_def)
    then have nd: "n \<notin> dom (map_of rest)" by (simp add: dom_map_of_conv_image_fst)
    have "delivered c' = ?m(n \<mapsto> v) ++ map_of rest" by (simp add: c' delivered_def)
    also have "\<dots> = (?m ++ map_of rest)(n \<mapsto> v)" using nd by (rule map_add_upd_left)
    also have "\<dots> = delivered c" using P_drain Cons a by (simp add: delivered_def)
    finally have d: "delivered c' = delivered c" .
    show ?thesis
    proof (rule play_deliv_keep[OF pd d])
      show "Players ep \<noteq> Map.empty" if "ppc c' = P_drain (Some ep) \<or> ppc c' = P_return (Some ep)" for ep
        using that by (auto simp: c')
    qed (simp_all add: c')
  qed
next
  case (P_return r)
  with st show ?thesis by simp
next
  case P_panic
  with st show ?thesis by simp
qed

lemma play_log_calls:
  assumes "play_log ctx \<sigma> c"
  shows "plays ctx (new_calls \<sigma> (penv c)) \<and>
         calls (penv c) = calls \<sigma> @ new_calls \<sigma> (penv c) \<and>
         (\<forall>n. (\<exists>e. PlayCall n ctx e \<in> set (new_calls \<sigma> (penv c))) \<longleftrightarrow> played (pgos c n)) \<and>
         (\<forall>n it e. pgos c n = Some (it, G_send e) \<longrightarrow>
            PlayCall n ctx e \<in> set (new_calls \<sigma> (penv c)))"
proof -
  from assms obtain L where L: "calls (penv c) = calls \<sigma> @ L" "plays ctx L"
    "\<forall>n. (\<exists>e. PlayCall n ctx e \<in> set L) \<longleftrightarrow> played (pgos c n)"
    "\<forall>n it e. pgos c n = Some (it, G_send e) \<longrightarrow> PlayCall n ctx e \<in> set L"
    unfolding play_log_def by blast
  from L(1) have "new_calls \<sigma> (penv c) = L" by (rule new_calls_append)
  with L show ?thesis by simp
qed

lemma play_deliv_go:
  assumes l: "play_log ctx \<sigma> c" and pd: "play_deliv ctx \<sigma> c"
    and g: "pgos c n = Some (it, g)"
    and st: "Play_go ctx n it g c = Some c'"
  shows "play_deliv ctx \<sigma> c'"
proof -
  let ?L = "new_calls \<sigma> (penv c)"
  from play_log_calls[OF l] have pl: "plays ctx ?L"
    and cs: "calls (penv c) = calls \<sigma> @ ?L"
    and gs: "\<And>e. g = G_send e \<Longrightarrow> PlayCall n ctx e \<in> set ?L"
    using g by auto
  from pd have iff: "\<And>m v. delivered c m = Some v \<longleftrightarrow> sent (pgos c m) \<and> PlayCall m ctx (Some v) \<in> set ?L"
    by (simp add: play_deliv_def)
  from pd have ne: "\<And>ep. ppc c = P_drain (Some ep) \<or> ppc c = P_return (Some ep) \<Longrightarrow> Players ep \<noteq> Map.empty"
    unfolding play_deliv_def by blast
  have fault: ?thesis if "c' = c\<lparr>pfault := True\<rparr>"
    by (rule play_deliv_keep[OF pd]) (use that ne in \<open>simp_all add: delivered_def\<close>)
  show ?thesis
  proof (cases g)
    case G_call
    obtain e \<sigma>' where cp: "call_Play n it ctx (penv c) = (e, \<sigma>')"
      by (cases "call_Play n it ctx (penv c)")
    then have \<sigma>': "calls \<sigma>' = calls (penv c) @ [PlayCall n ctx e]"
      by (auto simp: call_Play_def split: prod.splits)
    from cp G_call st have c': "c' = c\<lparr>penv := \<sigma>', pgos := (pgos c)(n \<mapsto> (it, G_send e))\<rparr>"
      by simp
    have L': "new_calls \<sigma> (penv c') = ?L @ [PlayCall n ctx e]"
      by (rule new_calls_append) (simp add: c' \<sigma>' cs[symmetric])
    have d: "delivered c' = delivered c" by (simp add: c' delivered_def)
    have "delivered c' m = Some v \<longleftrightarrow>
          sent (pgos c' m) \<and> PlayCall m ctx (Some v) \<in> set (new_calls \<sigma> (penv c'))" for m v
    proof (cases "m = n")
      case True
      with iff[of n v] g G_call show ?thesis unfolding d L' by (simp add: c')
    next
      case False
      with iff[of m v] show ?thesis unfolding d L' by (simp add: c')
    qed
    moreover have "Players ep \<noteq> Map.empty"
      if "ppc c' = P_drain (Some ep) \<or> ppc c' = P_return (Some ep)" for ep
      using that ne by (simp add: c')
    ultimately show ?thesis unfolding play_deliv_def by blast
  next
    case (G_send e)
    from g G_send have ns: "\<not> sent (pgos c n)" by simp
    from gs G_send have inL: "PlayCall n ctx e \<in> set ?L" by simp
    show ?thesis
    proof (cases e)
      case None
      with G_send st have c': "c' = c\<lparr>pgos := (pgos c)(n \<mapsto> (it, G_defer))\<rparr>" by simp
      have d: "delivered c' = delivered c" by (simp add: c' delivered_def)
      have L': "new_calls \<sigma> (penv c') = ?L" by (simp add: c')
      have "delivered c' m = Some v \<longleftrightarrow>
            sent (pgos c' m) \<and> PlayCall m ctx (Some v) \<in> set (new_calls \<sigma> (penv c'))" for m v
      proof (cases "m = n")
        case True
        have "PlayCall n ctx (Some v) \<notin> set ?L"
        proof
          assume "PlayCall n ctx (Some v) \<in> set ?L"
          with plays_unique[OF pl inL this] None show False by simp
        qed
        with True iff[of n v] ns show ?thesis unfolding d L' by (simp add: c')
      next
        case False
        with iff[of m v] show ?thesis unfolding d L' by (simp add: c')
      qed
      moreover have "Players ep \<noteq> Map.empty"
        if "ppc c' = P_drain (Some ep) \<or> ppc c' = P_return (Some ep)" for ep
        using that ne by (simp add: c')
      ultimately show ?thesis unfolding play_deliv_def by blast
    next
      case (Some v0)
      show ?thesis
      proof (cases "eclosed c")
        case True
        with G_send Some st have "c' = c\<lparr>pfault := True\<rparr>" by simp
        then show ?thesis by (rule fault)
      next
        case False
        with G_send Some st
        have c': "c' = c\<lparr>echan := echan c @ [(n, v0)], pgos := (pgos c)(n \<mapsto> (it, G_defer))\<rparr>"
          by (auto split: if_splits)
        have L': "new_calls \<sigma> (penv c') = ?L" by (simp add: c')
        from iff[of n] ns have dn: "delivered c n = None" by (cases "delivered c n") auto
        then have en: "err_map (drained (ppc c)) n = None" and mn: "map_of (echan c) n = None"
          by (auto simp: delivered_def map_add_def split: option.splits)
        have dn': "delivered c' n = Some v0"
          using mn by (simp add: c' delivered_def map_add_def)
        have dm': "delivered c' m = delivered c m" if "m \<noteq> n" for m
          using that by (simp add: c' delivered_def map_add_def split: option.splits)
        have "delivered c' m = Some v \<longleftrightarrow>
              sent (pgos c' m) \<and> PlayCall m ctx (Some v) \<in> set (new_calls \<sigma> (penv c'))" for m v
        proof (cases "m = n")
          case True
          have "PlayCall n ctx (Some v) \<in> set ?L \<longleftrightarrow> v = v0"
          proof
            assume "PlayCall n ctx (Some v) \<in> set ?L"
            with plays_unique[OF pl inL this] Some show "v = v0" by simp
          next
            assume "v = v0"
            with inL Some show "PlayCall n ctx (Some v) \<in> set ?L" by simp
          qed
          with True dn' show ?thesis unfolding L' by (auto simp: c')
        next
          case False
          with iff[of m v] dm'[OF False] show ?thesis unfolding L' by (simp add: c')
        qed
        moreover have "Players ep \<noteq> Map.empty"
          if "ppc c' = P_drain (Some ep) \<or> ppc c' = P_return (Some ep)" for ep
          using that ne by (simp add: c')
        ultimately show ?thesis unfolding play_deliv_def by blast
      qed
    qed
  next
    case G_defer
    show ?thesis
    proof (cases "pwg c = 0")
      case True
      with G_defer st have "c' = c\<lparr>pfault := True\<rparr>" by simp
      then show ?thesis by (rule fault)
    next
      case False
      with G_defer st have c': "c' = c\<lparr>pwg := pwg c - 1, pgos := (pgos c)(n \<mapsto> (it, G_exit))\<rparr>"
        by simp
      show ?thesis
      proof (rule play_deliv_keep[OF pd])
        show "sent (pgos c' m) = sent (pgos c m)" for m
          using g G_defer by (cases "m = n") (simp_all add: c')
        show "Players ep \<noteq> Map.empty"
          if "ppc c' = P_drain (Some ep) \<or> ppc c' = P_return (Some ep)" for ep
          using that ne by (simp add: c')
      qed (simp_all add: c' delivered_def)
    qed
  next
    case G_exit
    with st show ?thesis by simp
  qed
qed

lemma play_all_init: "play_all ctx its \<sigma> (Play_init \<sigma>)"
  by (simp add: play_all_def play_inv_init play_chan_init play_log_init play_deliv_init)

lemma play_all_step:
  assumes r: "ranges (players s) its" and a: "play_all ctx its \<sigma> c"
    and st: "Play_step s ctx its t c = Some c'"
  shows "play_all ctx its \<sigma> c'"
proof -
  from a have i: "play_inv its c" and ch: "play_chan c" and l: "play_log ctx \<sigma> c"
    and pd: "play_deliv ctx \<sigma> c" by (simp_all add: play_all_def)
  have "play_deliv ctx \<sigma> c'"
  proof (cases t)
    case Main
    with st i have "Play_main s its (ppc c) c = Some c'"
      by (simp add: Play_step_def play_inv_def)
    with r i ch pd show ?thesis by (rule play_deliv_main)
  next
    case (Go n)
    with st i obtain it g where g: "pgos c n = Some (it, g)" and m: "Play_go ctx n it g c = Some c'"
      by (auto simp: Play_step_def play_inv_def split: option.splits)
    with l pd show ?thesis by (rule play_deliv_go)
  qed
  with play_inv_step[OF r i st] play_chan_step[OF r i ch st] play_log_step[OF r i l st]
  show ?thesis by (simp add: play_all_def)
qed

lemma play_all_run:
  assumes r: "ranges (players s) its"
    and "run (Play_step s ctx its) sched (Play_init \<sigma>) = Some c"
  shows "play_all ctx its \<sigma> c"
  using assms(2) play_all_init
  by (rule run_invariant) (rule play_all_step[OF r])

lemma play_gate_init: "play_gate s \<sigma> (Play_init \<sigma>)"
  by (simp add: play_gate_def Play_init_def)

lemma play_gate_step:
  assumes gt: "play_gate s \<sigma> c" and st: "Play_step s ctx its t c = Some c'"
  shows "play_gate s \<sigma> c'"
proof (cases "beenSetup s")
  case True
  have "ppc c' \<noteq> P_panic"
  proof (cases t)
    case Main
    with st have m: "Play_main s its (ppc c) c = Some c'"
      by (auto simp: Play_step_def split: if_splits)
    show ?thesis
    proof (cases "ppc c")
      case (P_range rest)
      with m show ?thesis by (cases rest) auto
    next
      case (P_drain err)
      with m show ?thesis by (auto split: list.splits if_splits)
    qed (use m True in \<open>auto split: if_splits\<close>)
  next
    case (Go n)
    with st obtain it g where m: "Play_go ctx n it g c = Some c'"
      by (auto simp: Play_step_def split: if_splits option.splits)
    from gt True have "ppc c \<noteq> P_panic" by (simp add: play_gate_def)
    moreover have "ppc c' = ppc c"
    proof (cases g)
      case (G_send e)
      with m show ?thesis by (cases e) (auto split: if_splits)
    qed (use m in \<open>auto split: if_splits prod.splits\<close>)
    ultimately show ?thesis by simp
  qed
  with True show ?thesis by (simp add: play_gate_def)
next
  case False
  with gt have "c = Play_init \<sigma> \<or> c = (Play_init \<sigma>)\<lparr>ppc := P_panic\<rparr>"
    by (simp add: play_gate_def)
  then have "c' = (Play_init \<sigma>)\<lparr>ppc := P_panic\<rparr>"
  proof
    assume "c = Play_init \<sigma>"
    with st False show ?thesis
      by (cases t) (auto simp: Play_step_def Play_init_def split: if_splits)
  next
    assume "c = (Play_init \<sigma>)\<lparr>ppc := P_panic\<rparr>"
    with st show ?thesis
      by (cases t) (auto simp: Play_step_def Play_init_def split: if_splits)
  qed
  with False show ?thesis by (simp add: play_gate_def)
qed

lemma play_gate_run:
  assumes "run (Play_step s ctx its) sched (Play_init \<sigma>) = Some c"
  shows "play_gate s \<sigma> c"
  using assms play_gate_init
  by (rule run_invariant) (rule play_gate_step)

lemma play_returned:
  assumes r: "ranges (players s) its"
    and run: "run (Play_step s ctx its) sched (Play_init \<sigma>) = Some c"
    and ret: "ppc c = P_return res"
  shows "plays ctx (new_calls \<sigma> (penv c)) \<and>
         (\<forall>n. (\<exists>e. PlayCall n ctx e \<in> set (new_calls \<sigma> (penv c))) \<longleftrightarrow> n \<in> dom (players s)) \<and>
         (\<forall>n it. players s n = Some it \<longrightarrow> pgos c n = Some (it, G_exit)) \<and>
         dom (pgos c) = dom (players s) \<and>
         (\<forall>n v. err_map res n = Some v \<longleftrightarrow> PlayCall n ctx (Some v) \<in> set (new_calls \<sigma> (penv c))) \<and>
         (res = None \<longleftrightarrow> err_map res = Map.empty)"
proof -
  let ?L = "new_calls \<sigma> (penv c)"
  from play_all_run[OF r run] have i: "play_inv its c" and l: "play_log ctx \<sigma> c"
    and pd: "play_deliv ctx \<sigma> c" by (simp_all add: play_all_def)
  from i ret have ex: "\<forall>n \<in> fst ` set its. gone G_exit (pgos c n)" and emp: "echan c = []"
    and mem: "\<forall>n it g. pgos c n = Some (it, g) \<longrightarrow> (n, it) \<in> set its"
    by (simp_all add: play_inv_def)
  from play_log_calls[OF l] have pl: "plays ctx ?L"
    and pld: "\<And>n. (\<exists>e. PlayCall n ctx e \<in> set ?L) \<longleftrightarrow> played (pgos c n)" by simp_all
  have 1: "pgos c n = Some (it, G_exit)" if "players s n = Some it" for n it
  proof -
    from that r have nin: "(n, it) \<in> set its" by (simp add: ranges_lookup)
    then have "n \<in> fst ` set its" by force
    with ex have "gone G_exit (pgos c n)" by blast
    then obtain jt where j: "pgos c n = Some (jt, G_exit)"
      by (auto simp: gone_def split: option.splits)
    with mem have "(n, jt) \<in> set its" by blast
    with r have "players s n = Some jt" by (simp add: ranges_lookup)
    with that have "jt = it" by simp
    with j show ?thesis by simp
  qed
  have 2: "n \<in> dom (players s)" if "pgos c n = Some x" for n x
  proof -
    obtain it g where "x = (it, g)" by (cases x)
    with that mem have "(n, it) \<in> set its" by blast
    with r have "players s n = Some it" by (simp add: ranges_lookup)
    then show ?thesis by blast
  qed
  have 3: "played (pgos c n) \<longleftrightarrow> n \<in> dom (players s)" for n
  proof
    assume "played (pgos c n)"
    then obtain x where "pgos c n = Some x" by (cases "pgos c n") simp_all
    then show "n \<in> dom (players s)" by (rule 2)
  next
    assume "n \<in> dom (players s)"
    then obtain it where "players s n = Some it" by blast
    from 1[OF this] show "played (pgos c n)" by simp
  qed
  have 4: "dom (pgos c) = dom (players s)"
  proof (rule set_eqI)
    fix n show "n \<in> dom (pgos c) \<longleftrightarrow> n \<in> dom (players s)"
    proof
      assume "n \<in> dom (pgos c)"
      then obtain x where "pgos c n = Some x" by blast
      then show "n \<in> dom (players s)" by (rule 2)
    next
      assume "n \<in> dom (players s)"
      then obtain it where "players s n = Some it" by blast
      from 1[OF this] show "n \<in> dom (pgos c)" by blast
    qed
  qed
  from emp ret have d: "delivered c = err_map res" by (simp add: delivered_def)
  from pd have iff: "\<And>m v. delivered c m = Some v \<longleftrightarrow> sent (pgos c m) \<and> PlayCall m ctx (Some v) \<in> set ?L"
    by (simp add: play_deliv_def)
  have 5: "err_map res n = Some v \<longleftrightarrow> PlayCall n ctx (Some v) \<in> set ?L" for n v
  proof
    assume "err_map res n = Some v"
    with iff[of n v] d show "PlayCall n ctx (Some v) \<in> set ?L" by simp
  next
    assume a: "PlayCall n ctx (Some v) \<in> set ?L"
    then have "played (pgos c n)" using pld[of n] by blast
    with 3 obtain it where "players s n = Some it" by blast
    from 1[OF this] have "sent (pgos c n)" by simp
    with a iff[of n v] d show "err_map res n = Some v" by simp
  qed
  have 6: "res = None \<longleftrightarrow> err_map res = Map.empty"
  proof (cases res)
    case None
    then show ?thesis by simp
  next
    case (Some ep)
    with pd ret have "Players ep \<noteq> Map.empty" unfolding play_deliv_def by blast
    with Some show ?thesis by simp
  qed
  from pl pld 3 1 4 5 6 show ?thesis by blast
qed

subsection \<open>The examples\<close>

lemma duo_ranges: "ranges (players duo) duo_its"
  by (simp add: ranges_def duo_def duo_its_def Add_def NewStage_def)



lemma solo_ranges: "ranges (players solo) solo_its"
  by (simp add: ranges_def solo_def solo_its_def Add_def NewStage_def)

lemmas example_defs =
  steady_def failing_def broken_def once_def fresh_def
  SimplePlayer_def SimplePlayer_Setup_def SimplePlayer_Play_def SimplePlayer_Clean_def

section \<open>The claims\<close>




text \<open>
  C4. When every player of the stage returns \<open>nil\<close> from \<open>Setup\<close>, \<open>Stage.Setup\<close> calls
  \<open>Setup\<close> on every registered player exactly once, returns \<open>nil\<close>, and sets \<open>beenSetup\<close>,
  the flag that lets \<open>Play\<close> run; the registry is as before.
\<close>

theorem Setup_all_succeed:
  fixes s :: "('w, 'e, 'c) Stage"
  assumes "ranges (players s) its" and "setups_succeed its (world \<sigma>)"
  shows "\<exists>\<sigma>'. Setup s its \<sigma> = (None, s\<lparr>beenSetup := True\<rparr>, \<sigma>') \<and>
           world \<sigma>' = setups_world its (world \<sigma>) \<and>
           new_calls \<sigma> \<sigma>' = setup_calls its \<and>
           (\<forall>n \<in> dom (players s). count_list (new_calls \<sigma> \<sigma>') (SetupCall n None) = 1)"
proof -
  let ?L = "setup_calls its :: ('e, 'c) call list"
  let ?\<sigma> = "\<lparr>world = setups_world its (world \<sigma>), calls = calls \<sigma> @ ?L\<rparr>"
  have 1: "Setup s its \<sigma> = (None, s\<lparr>beenSetup := True\<rparr>, ?\<sigma>)"
    using assms(2) by (rule Setup_succeeds)
  have 2: "new_calls \<sigma> ?\<sigma> = ?L" by (simp add: new_calls_def)
  from assms(1) have d: "distinct (map fst its)" by (simp add: ranges_def)
  have 3: "\<forall>n \<in> dom (players s). count_list ?L (SetupCall n None) = 1"
  proof
    fix n assume "n \<in> dom (players s)"
    with ranges_dom[OF assms(1)] have "n \<in> fst ` set its" by simp
    with d show "count_list ?L (SetupCall n None) = 1" by (rule count_setups)
  qed
  from 1 2 3 show ?thesis by (intro exI[of _ ?\<sigma>]) simp
qed

theorem Setup_all_succeed_witness:
  "ranges (players duo) duo_its \<and> setups_succeed duo_its (world fresh) \<and>
   Setup duo duo_its fresh =
     (None, duo\<lparr>beenSetup := True\<rparr>,
      \<lparr>world = 0, calls = [SetupCall ''b'' None, SetupCall ''a'' None]\<rparr>) \<and>
   count_list [SetupCall ''b'' None, SetupCall ''a'' None :: (string, nat) call] (SetupCall ''a'' None) = 1"
proof -
  have h: "setups_succeed duo_its (world fresh)"
    by (simp add: duo_its_def example_defs)
  from Setup_all_succeed[OF duo_ranges h] duo_ranges h show ?thesis
    by (simp add: duo_its_def example_defs Setup_def call_Setup_def)
qed



text \<open>
  C8. The methods of a \<open>SimplePlayer\<close>: \<open>Setup\<close> returns \<open>nil\<close> and leaves the world as it is,
  \<open>Clean\<close> does nothing, and \<open>Play\<close> gives what the wrapped function gives on the same
  context.
\<close>

theorem SimplePlayer_methods:
  "Player_Setup (SimplePlayer sp) w = (None, w) \<and>
   Player_Clean (SimplePlayer sp) w = w \<and>
   Player_Play (SimplePlayer sp) ctx w = sp ctx w"
  by (simp add: SimplePlayer_def SimplePlayer_Setup_def SimplePlayer_Clean_def SimplePlayer_Play_def)

text \<open>
  C9. \<open>Add\<close> with a name that is registered replaces the player under that name by the
  new one, leaves every other name and the flag \<open>beenSetup\<close> as they are, and has no error
  to return.
\<close>

theorem Add_replaces:
  assumes "players s n = Some q"
  shows "players (Add s n p) n = Some p \<and>
         (\<forall>m. m \<noteq> n \<longrightarrow> players (Add s n p) m = players s m) \<and>
         beenSetup (Add s n p) = beenSetup s"
  by (simp add: Add_def)

theorem Add_replaces_witness:
  "players (Add NewStage ''a'' steady) ''a'' = Some steady \<and>
   players (Add (Add NewStage ''a'' steady) ''a'' (failing ''X'')) ''a'' = Some (failing ''X'') \<and>
   players (Add (Add NewStage ''a'' steady) ''a'' (failing ''X'')) ''b'' =
     players (Add NewStage ''a'' steady) ''b''"
proof -
  have h: "players (Add NewStage ''a'' steady) ''a'' = Some steady"
    by (simp add: Add_def)
  from Add_replaces[OF h, of "failing ''X''"] h show ?thesis by simp
qed

end
